theory Spec2Isabelle
  imports Main "HOL-Library.Multiset"
begin

section \<open>Cards and decks\<close>

text \<open>
  Both engines (Klondike in \<^verbatim>\<open>Solitaire.jsx\<close>, Spider in \<^verbatim>\<open>SpiderSolitaire.jsx\<close>) build
  their cards from the same three tables. The four suit symbols are a datatype; a rank is
  the string of \<^verbatim>\<open>RANKS\<close>; \<^verbatim>\<open>value\<close> is a JavaScript number that only ever holds the
  integers \<open>i + 1\<close>.
\<close>

datatype suit = Spades | Hearts | Diamonds | Clubs

datatype color = Black | Red

definition SUITS :: "suit list" where
  "SUITS = [Spades, Hearts, Diamonds, Clubs]"

fun SUIT_COLORS :: "suit \<Rightarrow> color" where
  "SUIT_COLORS Spades = Black"
| "SUIT_COLORS Clubs = Black"
| "SUIT_COLORS Hearts = Red"
| "SUIT_COLORS Diamonds = Red"

definition RANKS :: "string list" where
  "RANKS = [''A'', ''2'', ''3'', ''4'', ''5''] @ [''6'', ''7'', ''8'', ''9'', ''10''] @
           [''J'', ''Q'', ''K'']"

text \<open>
  The \<^verbatim>\<open>id\<close> of a card is a template string: \<^verbatim>\<open>`${suit}-${rank}`\<close> in Klondike and
  \<^verbatim>\<open>`${suit}-${rank}-${d}-${deck.length}`\<close> in Spider. The program only ever compares ids
  for equality, so the id is kept as the tuple of the interpolated components.
\<close>

datatype card_id = KlondikeId suit string | SpiderId suit string nat nat

record card =
  suit :: suit
  rank :: string
  val :: int
  color :: color
  ident :: card_id
  faceUp :: bool

text \<open>
  \<^verbatim>\<open>createDeck\<close>: for each suit, for each rank index \<open>i\<close>, one card of value \<open>i + 1\<close>.
  The freshly built objects have no \<^verbatim>\<open>faceUp\<close> property yet (it reads as falsy); the deal
  sets it on every card.
\<close>

definition mkCard :: "suit \<Rightarrow> nat \<Rightarrow> card_id \<Rightarrow> card" where
  "mkCard s i cid =
     \<lparr>suit = s, rank = RANKS ! i, val = int i + 1, color = SUIT_COLORS s,
      ident = cid, faceUp = False\<rparr>"

definition createDeck :: "card list" where
  "createDeck =
     concat (map (\<lambda>s. map (\<lambda>i. mkCard s i (KlondikeId s (RANKS ! i))) [0..<length RANKS]) SUITS)"

section \<open>Klondike: move validator\<close>

text \<open>
  \<^verbatim>\<open>canPlaceOnTableau(card, targetPile)\<close> and \<^verbatim>\<open>canPlaceOnFoundation(card, foundationPile)\<close>.
  A pile is listed bottom to top, so the top card is \<open>last pile\<close>.
\<close>

definition canPlaceOnTableau :: "card \<Rightarrow> card list \<Rightarrow> bool" where
  "canPlaceOnTableau c targetPile =
     (if length targetPile = 0 then rank c = ''K''
      else let topCard = last targetPile in
        if \<not> faceUp topCard then False
        else color c \<noteq> color topCard \<and> val c = val topCard - 1)"

definition canPlaceOnFoundation :: "card \<Rightarrow> card list \<Rightarrow> bool" where
  "canPlaceOnFoundation c foundationPile =
     (if length foundationPile = 0 then rank c = ''A''
      else let topCard = last foundationPile in
        suit c = suit topCard \<and> val c = val topCard + 1)"

text \<open>
  A foundation pile built legally from the empty pile: Ace first, then always the next
  value of the same suit.
\<close>

definition full_foundation :: "card list \<Rightarrow> bool" where
  "full_foundation pile \<longleftrightarrow>
     map val pile = map int [1..<14] \<and> (\<forall>c \<in> set pile. suit c = suit (hd pile))"

section \<open>Handlers, exceptions and React state\<close>

text \<open>
  Each component keeps its game in React state variables; a handler reads the values of the
  current render and queues new ones. The model passes the state explicitly. A handler
  that reads a property of \<^verbatim>\<open>undefined\<close> throws a \<^verbatim>\<open>TypeError\<close>: the result \<open>Inl (TypeError, s')\<close>
  carries the state \<open>s'\<close> left by the updates queued before the exception (React still
  applies them), \<open>Inr s'\<close> is a normal return.
\<close>

datatype error = TypeError

type_synonym 'st result = "(error \<times> 'st) + 'st"

definition commit :: "'st result \<Rightarrow> 'st" where
  "commit r = (case r of Inl (e, s) \<Rightarrow> s | Inr s \<Rightarrow> s)"

text \<open>
  The inlined idiom "flip the new top card if needed" (a helper \<^verbatim>\<open>flipLastCard\<close> in
  \<^verbatim>\<open>handleDoubleClick\<close>): when the pile is non-empty and its last card is face-down, that
  card is replaced by a face-up copy.
\<close>

definition flipLastCard :: "card list \<Rightarrow> card list" where
  "flipLastCard pile =
     (if length pile > 0 then
        (let lastCard = last pile in
         if \<not> faceUp lastCard then pile[length pile - 1 := lastCard\<lparr>faceUp := True\<rparr>]
         else pile)
      else pile)"

section \<open>Spider: the game engine of SpiderSolitaire.jsx\<close>

text \<open>
  \<^verbatim>\<open>createSpiderDeck(suitCount)\<close>: two decks of four suit slots of thirteen ranks; the id
  ends in the deck number \<open>d\<close> and the length of the deck at the moment of the push.
\<close>

definition suitsToUse :: "nat \<Rightarrow> suit list" where
  "suitsToUse suitCount =
     (if suitCount = 1 then [Spades, Spades, Spades, Spades]
      else if suitCount = 2 then [Spades, Hearts, Spades, Hearts]
      else [Spades, Hearts, Diamonds, Clubs])"

definition createSpiderDeck :: "nat \<Rightarrow> card list" where
  "createSpiderDeck suitCount =
     concat (map (\<lambda>d.
       concat (map (\<lambda>k.
         map (\<lambda>i. mkCard (suitsToUse suitCount ! k) i
                      (SpiderId (suitsToUse suitCount ! k) (RANKS ! i) d (d * 52 + k * 13 + i)))
             [0..<length RANKS])
         [0..<4]))
       [0..<2])"

record sp_selection =
  sp_pileIndex :: nat
  sp_cardIndex :: nat
  sp_cards :: "card list"

record sp_snapshot =
  snap_tableau :: "card list list"
  snap_stock :: "card list"
  snap_completedSuits :: int

record spider =
  sp_tableau :: "card list list"
  sp_stock :: "card list"
  sp_completedSuits :: int
  sp_selectedCard :: "sp_selection option"
  sp_moves :: int
  sp_gameWon :: bool
  sp_history :: "sp_snapshot list"
  sp_dealingCards :: bool

text \<open>\<^verbatim>\<open>cloneGameState\<close> copies every card object (\<^verbatim>\<open>{ ...card }\<close>) of every pile.\<close>

definition sp_cloneGameState :: "spider \<Rightarrow> sp_snapshot" where
  "sp_cloneGameState s =
     \<lparr>snap_tableau = map (\<lambda>pile. map (\<lambda>card. card) pile) (sp_tableau s),
      snap_stock = map (\<lambda>card. card) (sp_stock s),
      snap_completedSuits = sp_completedSuits s\<rparr>"

definition sp_saveToHistory :: "spider \<Rightarrow> spider" where
  "sp_saveToHistory s = s\<lparr>sp_history := sp_history s @ [sp_cloneGameState s]\<rparr>"

text \<open>\<^verbatim>\<open>isValidSequence\<close>: every adjacent pair has one suit and descends by one.\<close>

fun isValidSequence :: "card list \<Rightarrow> bool" where
  "isValidSequence (a # b # cs) =
     (if suit a \<noteq> suit b then False
      else if val a \<noteq> val b + 1 then False
      else isValidSequence (b # cs))"
| "isValidSequence cs = True"

text \<open>
  \<^verbatim>\<open>canMoveToTableau(cards, targetPile)\<close>. With no card to move \<^verbatim>\<open>cards[0]\<close> is undefined and
  its \<^verbatim>\<open>value\<close> is read only when the target's top card is face-up.
\<close>

definition canMoveToTableau :: "card list \<Rightarrow> card list \<Rightarrow> error + bool" where
  "canMoveToTableau cs targetPile =
     (if length targetPile = 0 then Inr True
      else let topCard = last targetPile in
        if \<not> faceUp topCard then Inr False
        else (case cs of [] \<Rightarrow> Inl TypeError
              | c # _ \<Rightarrow> Inr (val topCard = val c + 1)))"

text \<open>
  \<^verbatim>\<open>checkForCompletedSuit(pile)\<close> returns \<^verbatim>\<open>null\<close> or the number 13 of cards to remove.
\<close>

definition checkForCompletedSuit :: "card list \<Rightarrow> nat option" where
  "checkForCompletedSuit pile =
     (if length pile < 13 then None
      else let last13 = drop (length pile - 13) pile in
        if \<not> list_all faceUp last13 then None
        else let s = suit (last13 ! 0) in
          if \<not> list_all (\<lambda>c. suit c = s) last13 then None
          else if \<not> list_all (\<lambda>i. val (last13 ! i) = 13 - int i) [0..<13] then None
          else Some 13)"

text \<open>
  The block after a landing (in \<^verbatim>\<open>handleCardClick\<close> and, per pile, in \<^verbatim>\<open>handleStockClick\<close>):
  when the check answers, the pile loses that many cards from its top, the new top is
  flipped if needed, and one more suit is counted.
\<close>

definition removeCompleted :: "card list \<Rightarrow> card list \<times> int" where
  "removeCompleted pile =
     (case checkForCompletedSuit pile of
        None \<Rightarrow> (pile, 0)
      | Some completedCount \<Rightarrow> (flipLastCard (take (length pile - completedCount) pile), 1))"

definition sp_handleCardClick :: "nat \<Rightarrow> nat \<Rightarrow> spider \<Rightarrow> spider result" where
  "sp_handleCardClick pileIndex cardIndex s =
     (if sp_dealingCards s \<or> sp_gameWon s then Inr s
      else if pileIndex \<ge> length (sp_tableau s) then Inl (TypeError, s)
      else let pile = sp_tableau s ! pileIndex in
        if cardIndex \<ge> length pile then Inl (TypeError, s)
        else if \<not> faceUp (pile ! cardIndex) then Inr s
        else let cardsToMove = drop cardIndex pile in
          if \<not> isValidSequence cardsToMove then Inr s
          else (case sp_selectedCard s of
            None \<Rightarrow>
              Inr (s\<lparr>sp_selectedCard :=
                        Some \<lparr>sp_pileIndex = pileIndex, sp_cardIndex = cardIndex,
                              sp_cards = cardsToMove\<rparr>\<rparr>)
          | Some sel \<Rightarrow>
              if sp_pileIndex sel = pileIndex then Inr (s\<lparr>sp_selectedCard := None\<rparr>)
              else (case canMoveToTableau (sp_cards sel) pile of
                Inl e \<Rightarrow> Inl (e, s)
              | Inr False \<Rightarrow> Inr (s\<lparr>sp_selectedCard := None\<rparr>)
              | Inr True \<Rightarrow>
                  let s1 = sp_saveToHistory s in
                  if sp_pileIndex sel \<ge> length (sp_tableau s) then Inl (TypeError, s1)
                  else
                    let src = sp_pileIndex sel;
                        t1 = (sp_tableau s)[src := take (sp_cardIndex sel) (sp_tableau s ! src)];
                        t2 = t1[src := flipLastCard (t1 ! src)];
                        t3 = t2[pileIndex := pile @ sp_cards sel];
                        (dest, completed) = removeCompleted (t3 ! pileIndex);
                        t4 = t3[pileIndex := dest]
                    in Inr (s1\<lparr>sp_tableau := t4,
                               sp_completedSuits := sp_completedSuits s + completed,
                               sp_moves := sp_moves s + 1,
                               sp_selectedCard := None\<rparr>))))"

text \<open>
  \<^verbatim>\<open>handleEmptyPileClick(pileIndex)\<close> is bound to the slot of an empty pile only, so
  \<open>pileIndex\<close> is an index of the tableau.
\<close>

definition sp_handleEmptyPileClick :: "nat \<Rightarrow> spider \<Rightarrow> spider result" where
  "sp_handleEmptyPileClick pileIndex s =
     (case sp_selectedCard s of
        None \<Rightarrow> Inr s
      | Some sel \<Rightarrow>
          if sp_dealingCards s \<or> sp_gameWon s then Inr s
          else
            let s1 = sp_saveToHistory s in
            if sp_pileIndex sel \<ge> length (sp_tableau s) then Inl (TypeError, s1)
            else
              let src = sp_pileIndex sel;
                  t1 = (sp_tableau s)[src := take (sp_cardIndex sel) (sp_tableau s ! src)];
                  t2 = t1[src := flipLastCard (t1 ! src)];
                  t3 = t2[pileIndex := sp_cards sel]
              in Inr (s1\<lparr>sp_tableau := t3,
                         sp_moves := sp_moves s + 1,
                         sp_selectedCard := None\<rparr>))"

text \<open>
  The two loops of \<^verbatim>\<open>handleStockClick\<close>. The first pops one card per pile while
  \<open>i < 10\<close> and the copy of the stock is non-empty; the second visits all ten piles.
\<close>

function dealLoop :: "nat \<Rightarrow> card list list \<Rightarrow> card list \<Rightarrow> card list list \<times> card list" where
  "dealLoop i newTableau newStock =
     (if i < 10 \<and> length newStock > 0 then
        dealLoop (i + 1)
          (newTableau[i := newTableau ! i @ [(last newStock)\<lparr>faceUp := True\<rparr>]])
          (butlast newStock)
      else (newTableau, newStock))"
  by pat_completeness auto
termination
  by (relation "measure (\<lambda>(i, t, st). 10 - i)") auto

function completeLoop :: "nat \<Rightarrow> card list list \<Rightarrow> int \<Rightarrow> card list list \<times> int" where
  "completeLoop i newTableau newCompletedSuits =
     (if i < 10 then
        (let (pile, completed) = removeCompleted (newTableau ! i)
         in completeLoop (i + 1) (newTableau[i := pile]) (newCompletedSuits + completed))
      else (newTableau, newCompletedSuits))"
  by pat_completeness auto
termination
  by (relation "measure (\<lambda>(i, t, n). 10 - i)") auto

declare dealLoop.simps [simp del] completeLoop.simps [simp del]

definition sp_handleStockClick :: "spider \<Rightarrow> spider result" where
  "sp_handleStockClick s =
     (if length (sp_stock s) = 0 \<or> sp_dealingCards s \<or> sp_gameWon s then Inr s
      else if list_ex (\<lambda>pile. length pile = 0) (sp_tableau s) then Inr s
      else
        let s1 = sp_saveToHistory s in
        if length (sp_tableau s) < 10 then Inl (TypeError, s1)
        else
          let (t1, newStock) = dealLoop 0 (sp_tableau s) (sp_stock s);
              (t2, newCompletedSuits) = completeLoop 0 t1 (sp_completedSuits s)
          in Inr (s1\<lparr>sp_tableau := t2,
                     sp_stock := newStock,
                     sp_completedSuits := newCompletedSuits,
                     sp_moves := sp_moves s + 1,
                     sp_selectedCard := None\<rparr>))"

definition sp_handleUndo :: "spider \<Rightarrow> spider result" where
  "sp_handleUndo s =
     (if length (sp_history s) = 0 then Inr s
      else let previousState = last (sp_history s) in
        Inr (s\<lparr>sp_tableau := snap_tableau previousState,
                sp_stock := snap_stock previousState,
                sp_completedSuits := snap_completedSuits previousState,
                sp_history := butlast (sp_history s),
                sp_selectedCard := None,
                sp_moves := sp_moves s + 1\<rparr>))"

text \<open>
  \<^verbatim>\<open>initGame\<close>: piles 0 to 3 get six cards, piles 4 to 9 five, dealt pile by pile from the
  front of the shuffled deck; only the last card of a pile is face-up. The rest is the
  face-down stock. \<^verbatim>\<open>dealingCards\<close> is set, and cleared by a timer half a second later.
\<close>

definition sp_dealPile :: "card list \<Rightarrow> nat \<Rightarrow> nat \<Rightarrow> card list" where
  "sp_dealPile deck deckIndex cardCount =
     map (\<lambda>i. (deck ! (deckIndex + i))\<lparr>faceUp := (i = cardCount - 1)\<rparr>) [0..<cardCount]"

fun sp_dealFrom :: "card list \<Rightarrow> nat list \<Rightarrow> nat \<Rightarrow> card list list" where
  "sp_dealFrom deck [] deckIndex = []"
| "sp_dealFrom deck (pile # piles) deckIndex =
     (let cardCount = (if pile < 4 then 6 else 5)
      in sp_dealPile deck deckIndex cardCount # sp_dealFrom deck piles (deckIndex + cardCount))"

definition sp_initGame :: "card list \<Rightarrow> spider" where
  "sp_initGame deck =
     \<lparr>sp_tableau = sp_dealFrom deck [0..<10] 0,
      sp_stock = map (\<lambda>c. c\<lparr>faceUp := False\<rparr>) (drop 54 deck),
      sp_completedSuits = 0,
      sp_selectedCard = None,
      sp_moves = 0,
      sp_gameWon = False,
      sp_history = [],
      sp_dealingCards = True\<rparr>"

text \<open>The win effect runs after every render: eight completed suits set \<^verbatim>\<open>gameWon\<close>.\<close>

definition sp_winEffect :: "spider \<Rightarrow> spider" where
  "sp_winEffect s =
     (if sp_completedSuits s = 8 \<and> \<not> sp_gameWon s then s\<lparr>sp_gameWon := True\<rparr> else s)"

text \<open>
  What the player (and the dealing timer) can do. The tableau renders a click handler on
  every card, guarded by \<^verbatim>\<open>card.faceUp\<close>, one on the slot of an empty pile, one on the stock,
  and the undo button.
\<close>

datatype sp_action =
    SpCardClick nat nat
  | SpEmptyPileClick nat
  | SpStockClick
  | SpUndo
  | SpDealingDone

fun sp_enabled :: "spider \<Rightarrow> sp_action \<Rightarrow> bool" where
  "sp_enabled s (SpCardClick pileIndex cardIndex) =
     (pileIndex < length (sp_tableau s) \<and> cardIndex < length (sp_tableau s ! pileIndex) \<and>
      faceUp (sp_tableau s ! pileIndex ! cardIndex))"
| "sp_enabled s (SpEmptyPileClick pileIndex) =
     (pileIndex < length (sp_tableau s) \<and> length (sp_tableau s ! pileIndex) = 0)"
| "sp_enabled s SpStockClick = True"
| "sp_enabled s SpUndo = (length (sp_history s) \<noteq> 0)"
| "sp_enabled s SpDealingDone = True"

fun sp_handler :: "sp_action \<Rightarrow> spider \<Rightarrow> spider result" where
  "sp_handler (SpCardClick pileIndex cardIndex) s = sp_handleCardClick pileIndex cardIndex s"
| "sp_handler (SpEmptyPileClick pileIndex) s = sp_handleEmptyPileClick pileIndex s"
| "sp_handler SpStockClick s = sp_handleStockClick s"
| "sp_handler SpUndo s = sp_handleUndo s"
| "sp_handler SpDealingDone s = Inr (s\<lparr>sp_dealingCards := False\<rparr>)"

definition sp_step :: "spider \<Rightarrow> sp_action \<Rightarrow> spider" where
  "sp_step s a = sp_winEffect (commit (sp_handler a s))"

text \<open>
  A game starts from the deal of any shuffle of the deck (\<^verbatim>\<open>shuffleDeck\<close> draws its swaps
  from \<^verbatim>\<open>Math.random\<close>, so every permutation can come out).
\<close>

inductive sp_reachable :: "spider \<Rightarrow> bool" where
  sp_init: "mset deck = mset (createSpiderDeck suitCount) \<Longrightarrow> sp_reachable (sp_initGame deck)"
| sp_next: "sp_reachable s \<Longrightarrow> sp_enabled s a \<Longrightarrow> sp_reachable (sp_step s a)"

section \<open>Klondike: canPlaceOnFoundation\<close>

text \<open>
  Claim C7. \<^verbatim>\<open>canPlaceOnFoundation(card, pile)\<close> is true exactly when the pile is empty and
  the card's rank is \<^verbatim>\<open>'A'\<close>, or the pile is non-empty, its top card has the card's suit and
  the card's value is the top value plus one. Hence a full foundation pile (Ace through
  King of one suit) accepts no further card of the deck, whatever its face: every card of
  the deck has a value of at most 13.
\<close>

theorem canPlaceOnFoundation_spec:
  "(canPlaceOnFoundation c pile \<longleftrightarrow>
      (pile = [] \<and> rank c = ''A'') \<or>
      (pile \<noteq> [] \<and> suit c = suit (last pile) \<and> val c = val (last pile) + 1)) \<and>
   (full_foundation pile \<longrightarrow> d \<in> set createDeck \<longrightarrow>
      \<not> canPlaceOnFoundation (d\<lparr>faceUp := b\<rparr>) pile)"
proof
  show "canPlaceOnFoundation c pile \<longleftrightarrow>
      (pile = [] \<and> rank c = ''A'') \<or>
      (pile \<noteq> [] \<and> suit c = suit (last pile) \<and> val c = val (last pile) + 1)"
    by (auto simp: canPlaceOnFoundation_def Let_def)
next
  show "full_foundation pile \<longrightarrow> d \<in> set createDeck \<longrightarrow>
      \<not> canPlaceOnFoundation (d\<lparr>faceUp := b\<rparr>) pile"
  proof (intro impI)
    assume full: "full_foundation pile" and d: "d \<in> set createDeck"
    from full have vals: "map val pile = map int [1..<14]"
      by (simp add: full_foundation_def)
    then have "length (map val pile) = length (map int [1..<14])" by simp
    then have ne: "pile \<noteq> []" by auto
    have "val (last pile) = last (map val pile)"
      using ne by (simp add: last_map)
    also have "\<dots> = 13" unfolding vals by (simp add: upt_rec)
    finally have top: "val (last pile) = 13" .
    from d have "val d \<le> 13"
      by (auto simp: createDeck_def mkCard_def RANKS_def SUITS_def)
    with top ne show "\<not> canPlaceOnFoundation (d\<lparr>faceUp := b\<rparr>) pile"
      by (simp add: canPlaceOnFoundation_def Let_def)
  qed
qed

theorem canPlaceOnFoundation_spec_witness:
  "full_foundation (map (\<lambda>c. c\<lparr>faceUp := True\<rparr>) (take 13 createDeck)) \<and>
   createDeck ! 13 \<in> set createDeck \<and>
   \<not> canPlaceOnFoundation ((createDeck ! 13)\<lparr>faceUp := True\<rparr>)
       (map (\<lambda>c. c\<lparr>faceUp := True\<rparr>) (take 13 createDeck))"
proof -
  have a: "full_foundation (map (\<lambda>c. c\<lparr>faceUp := True\<rparr>) (take 13 createDeck))"
    by code_simp
  have b: "createDeck ! 13 \<in> set createDeck"
    by code_simp
  from canPlaceOnFoundation_spec
         [of "createDeck ! 13" "map (\<lambda>c. c\<lparr>faceUp := True\<rparr>) (take 13 createDeck)"
             "createDeck ! 13" True] a b
  show ?thesis by blast
qed

definition faceDownBelow :: "card list \<Rightarrow> bool" where
  "faceDownBelow pile \<longleftrightarrow> sorted_wrt (\<lambda>a b. faceUp a \<longrightarrow> faceUp b) pile"

definition noHiddenRun :: "card list \<Rightarrow> bool" where
  "noHiddenRun pile \<longleftrightarrow> (\<forall>n. checkForCompletedSuit (take n pile) = None)"

lemma flipLastCard_Nil [simp]: "flipLastCard [] = []"
  by (simp add: flipLastCard_def)

lemma flipLastCard_snoc [simp]: "flipLastCard (xs @ [c]) = xs @ [c\<lparr>faceUp := True\<rparr>]"
  by (simp add: flipLastCard_def Let_def)

lemma length_flipLastCard [simp]: "length (flipLastCard pile) = length pile"
  by (simp add: flipLastCard_def Let_def)

lemma map_ident_flipLastCard [simp]: "map ident (flipLastCard pile) = map ident pile"
  by (cases pile rule: rev_cases) simp_all

lemma map_val_flipLastCard [simp]: "map val (flipLastCard pile) = map val pile"
  by (cases pile rule: rev_cases) simp_all

lemma flipLastCard_eq_Nil [simp]: "flipLastCard pile = [] \<longleftrightarrow> pile = []"
  by (cases pile rule: rev_cases) simp_all

lemma faceUp_last_flipLastCard: "pile \<noteq> [] \<Longrightarrow> faceUp (last (flipLastCard pile))"
  by (cases pile rule: rev_cases) simp_all

lemma faceDownBelow_Nil [simp]: "faceDownBelow []"
  by (simp add: faceDownBelow_def)

lemma faceDownBelow_take: "faceDownBelow pile \<Longrightarrow> faceDownBelow (take n pile)"
  by (simp add: faceDownBelow_def sorted_wrt_take)

lemma faceDownBelow_append:
  "faceDownBelow (xs @ ys) \<longleftrightarrow>
     faceDownBelow xs \<and> faceDownBelow ys \<and> (\<forall>a\<in>set xs. \<forall>b\<in>set ys. faceUp a \<longrightarrow> faceUp b)"
  by (auto simp: faceDownBelow_def sorted_wrt_append)

lemma faceDownBelow_single [simp]: "faceDownBelow [c]"
  by (simp add: faceDownBelow_def)

lemma faceDownBelow_flipLastCard: "faceDownBelow pile \<Longrightarrow> faceDownBelow (flipLastCard pile)"
  by (cases pile rule: rev_cases) (auto simp: faceDownBelow_append)

lemma faceDownBelow_all_up:
  "list_all faceUp cs \<Longrightarrow> faceDownBelow cs"
  by (induction cs) (auto simp: faceDownBelow_def list_all_iff)

lemma faceDownBelow_drop_up:
  assumes "faceDownBelow pile" "i < length pile" "faceUp (pile ! i)"
  shows "list_all faceUp (drop i pile)"
proof -
  have "\<forall>j. i < j \<and> j < length pile \<longrightarrow> faceUp (pile ! j)"
    using assms by (auto simp: faceDownBelow_def sorted_wrt_iff_nth_less)
  then have "\<forall>j. i \<le> j \<and> j < length pile \<longrightarrow> faceUp (pile ! j)"
    using assms(3) by (metis le_neq_implies_less)
  then show ?thesis
    by (auto simp: list_all_length)
qed

lemma faceDownBelow_top_down:
  assumes "faceDownBelow pile" "pile \<noteq> []" "\<not> faceUp (last pile)"
  shows "\<forall>c\<in>set pile. \<not> faceUp c"
proof -
  obtain xs x where p: "pile = xs @ [x]" using assms(2) by (cases pile rule: rev_cases) auto
  with assms show ?thesis by (auto simp: faceDownBelow_append)
qed


lemma isValidSequence_nth:
  "isValidSequence cs \<Longrightarrow> Suc k < length cs \<Longrightarrow>
     suit (cs ! k) = suit (cs ! Suc k) \<and> val (cs ! k) = val (cs ! Suc k) + 1"
proof (induction cs arbitrary: k rule: isValidSequence.induct)
  case (1 a b cs)
  then show ?case by (cases k) (auto split: if_splits)
qed auto

lemma isValidSequence_drop: "isValidSequence cs \<Longrightarrow> isValidSequence (drop k cs)"
proof (induction cs arbitrary: k rule: isValidSequence.induct)
  case (1 a b cs)
  then show ?case
    by (cases k) (auto split: if_splits)
qed (auto simp: drop_Cons split: nat.splits)

lemma check_Some_D:
  assumes "checkForCompletedSuit pile = Some n"
  shows "n = 13" "13 \<le> length pile" "list_all faceUp (drop (length pile - 13) pile)"
        "val (last pile) = 1"
proof -
  let ?l = "drop (length pile - 13) pile"
  from assms show n: "n = 13" and len: "13 \<le> length pile"
    by (auto simp: checkForCompletedSuit_def Let_def split: if_splits)
  from assms show "list_all faceUp ?l"
    by (auto simp: checkForCompletedSuit_def Let_def split: if_splits)
  from assms have "list_all (\<lambda>i. val (?l ! i) = 13 - int i) [0..<13]"
    by (auto simp: checkForCompletedSuit_def Let_def split: if_splits)
  then have "val (?l ! 12) = 1"
    by (simp add: list_all_iff)
  moreover have "?l ! 12 = last pile"
  proof -
    have "pile \<noteq> []" using len by auto
    then show ?thesis using len by (simp add: last_conv_nth)
  qed
  ultimately show "val (last pile) = 1" by simp
qed

lemma check_None_short: "length pile < 13 \<Longrightarrow> checkForCompletedSuit pile = None"
  by (simp add: checkForCompletedSuit_def)

lemma check_None_facedown:
  assumes "c \<in> set (drop (length pile - 13) pile)" "\<not> faceUp c"
  shows "checkForCompletedSuit pile = None"
  using assms by (auto simp: checkForCompletedSuit_def Let_def list_all_iff)

lemma check_None_top: "pile \<noteq> [] \<Longrightarrow> val (last pile) \<noteq> 1 \<Longrightarrow> checkForCompletedSuit pile = None"
  using check_Some_D(4) by (cases "checkForCompletedSuit pile") auto

lemma check_suffix:
  "13 \<le> length ys \<Longrightarrow> checkForCompletedSuit (xs @ ys) = checkForCompletedSuit ys"
  by (simp add: checkForCompletedSuit_def)

lemma noHiddenRun_Nil [simp]: "noHiddenRun []"
  by (simp add: noHiddenRun_def check_None_short)

lemma noHiddenRun_take: "noHiddenRun pile \<Longrightarrow> noHiddenRun (take m pile)"
  by (simp add: noHiddenRun_def)

lemma noHiddenRun_self: "noHiddenRun pile \<Longrightarrow> checkForCompletedSuit pile = None"
  unfolding noHiddenRun_def by (metis take_all order_refl)

lemma noHiddenRun_flipLastCard:
  assumes "noHiddenRun X" "faceDownBelow X"
  shows "noHiddenRun (flipLastCard X)"
proof (cases "X = [] \<or> faceUp (last X)")
  case True
  then show ?thesis using assms(1) by (auto simp: flipLastCard_def Let_def)
next
  case False
  then obtain xs x where X: "X = xs @ [x]" and x: "\<not> faceUp x"
    by (cases X rule: rev_cases) auto
  have down: "\<forall>c\<in>set xs. \<not> faceUp c"
    using faceDownBelow_top_down[OF assms(2)] False X by auto
  show ?thesis unfolding noHiddenRun_def
  proof
    fix n
    show "checkForCompletedSuit (take n (flipLastCard X)) = None"
    proof (cases "n \<le> length xs")
      case True
      then have "take n (flipLastCard X) = take n X" by (simp add: X)
      then show ?thesis using assms(1) by (simp add: noHiddenRun_def)
    next
      case False
      then have eq: "take n (flipLastCard X) = xs @ [x\<lparr>faceUp := True\<rparr>]" by (simp add: X)
      show ?thesis
      proof (cases "length xs < 12")
        case True
        then show ?thesis unfolding eq by (simp add: check_None_short)
      next
        case False
        then have "xs \<noteq> []" by auto
        have "length xs - 12 < length xs" using \<open>xs \<noteq> []\<close> False by (cases xs) auto
        then have "drop (length xs - 12) xs \<noteq> []" by simp
        then have "last (drop (length xs - 12) xs) \<in> set (drop (length xs - 12) xs)"
          by (rule last_in_set)
        moreover have "last (drop (length xs - 12) xs) = last xs"
          using \<open>xs \<noteq> []\<close> by (simp add: last_drop)
        ultimately have "last xs \<in> set (drop (length (xs @ [x\<lparr>faceUp := True\<rparr>]) - 13) (xs @ [x\<lparr>faceUp := True\<rparr>]))"
          using False by auto
        moreover have "\<not> faceUp (last xs)" using down \<open>xs \<noteq> []\<close> by auto
        ultimately show ?thesis unfolding eq by (rule check_None_facedown)
      qed
    qed
  qed
qed

lemma check_inside_sequence:
  assumes "isValidSequence S" "\<forall>c\<in>set S. 1 \<le> val c" "0 < k" "k < length S"
  shows "checkForCompletedSuit (P @ take k S) = None"
proof -
  obtain j where j: "k = Suc j" using assms(3) by (cases k) auto
  have "take k S = take j S @ [S ! j]"
    using assms(4) j by (simp add: take_Suc_conv_app_nth)
  then have "last (P @ take k S) = S ! j" by simp
  moreover have "val (S ! j) = val (S ! Suc j) + 1"
    using isValidSequence_nth[OF assms(1)] assms(4) j by simp
  moreover have "1 \<le> val (S ! Suc j)" using assms(2,4) j by auto
  ultimately have "val (last (P @ take k S)) \<noteq> 1" by simp
  moreover have "P @ take k S \<noteq> []" using assms(3,4) by auto
  ultimately show ?thesis by (rule check_None_top[rotated])
qed

lemma noHiddenRun_below_landing:
  assumes "noHiddenRun P" "isValidSequence S" "\<forall>c\<in>set S. 1 \<le> val c" "n < length (P @ S)"
  shows "checkForCompletedSuit (take n (P @ S)) = None"
proof (cases "n \<le> length P")
  case True
  then show ?thesis using assms(1) by (simp add: noHiddenRun_def)
next
  case False
  then have "take n (P @ S) = P @ take (n - length P) S" by simp
  moreover have "0 < n - length P" "n - length P < length S" using False assms(4) by auto
  ultimately show ?thesis using check_inside_sequence[OF assms(2,3)] by simp
qed

lemma noHiddenRun_landing:
  assumes "noHiddenRun P" "isValidSequence S" "\<forall>c\<in>set S. 1 \<le> val c"
    "checkForCompletedSuit (P @ S) = None"
  shows "noHiddenRun (P @ S)"
  unfolding noHiddenRun_def
proof
  fix n
  show "checkForCompletedSuit (take n (P @ S)) = None"
    using noHiddenRun_below_landing[OF assms(1-3), of n] assms(4)
    by (cases "n < length (P @ S)") auto
qed

lemma noHiddenRun_landing_take:
  assumes "noHiddenRun P" "isValidSequence S" "\<forall>c\<in>set S. 1 \<le> val c" "m < length (P @ S)"
  shows "noHiddenRun (take m (P @ S))"
  unfolding noHiddenRun_def
proof
  fix n
  have "take n (take m (P @ S)) = take (min n m) (P @ S)" by (rule take_take)
  moreover have "min n m < length (P @ S)" using assms(4) by auto
  ultimately show "checkForCompletedSuit (take n (take m (P @ S))) = None"
    using noHiddenRun_below_landing[OF assms(1-3)] by metis
qed

definition sp_pile_ok :: "card list \<Rightarrow> bool" where
  "sp_pile_ok pile \<longleftrightarrow> faceDownBelow pile \<and> noHiddenRun pile \<and> (\<forall>c\<in>set pile. 1 \<le> val c)"

definition idsOf :: "card list list \<Rightarrow> card list \<Rightarrow> card_id multiset" where
  "idsOf t st = image_mset ident (mset (concat t) + mset st)"

definition uniqueIds :: "card_id multiset \<Rightarrow> bool" where
  "uniqueIds M \<longleftrightarrow> (\<forall>a. count M a \<le> 1)"

definition sp_piles_ok :: "card list list \<Rightarrow> card list \<Rightarrow> int \<Rightarrow> bool" where
  "sp_piles_ok t st n \<longleftrightarrow>
     length t = 10 \<and> (\<forall>pile\<in>set t. sp_pile_ok pile) \<and> (\<forall>c\<in>set st. 1 \<le> val c) \<and>
     10 dvd length st \<and> uniqueIds (idsOf t st) \<and> int (size (idsOf t st)) + 13 * n = 104"

definition sp_selection_ok :: "card list list \<Rightarrow> sp_selection \<Rightarrow> bool" where
  "sp_selection_ok t sel \<longleftrightarrow>
     sp_pileIndex sel < length t \<and> sp_cardIndex sel < length (t ! sp_pileIndex sel) \<and>
     faceUp (t ! sp_pileIndex sel ! sp_cardIndex sel) \<and>
     sp_cards sel = drop (sp_cardIndex sel) (t ! sp_pileIndex sel) \<and>
     isValidSequence (sp_cards sel)"

definition sp_inv :: "spider \<Rightarrow> bool" where
  "sp_inv s \<longleftrightarrow>
     sp_piles_ok (sp_tableau s) (sp_stock s) (sp_completedSuits s) \<and>
     (\<forall>h\<in>set (sp_history s).
        sp_piles_ok (snap_tableau h) (snap_stock h) (snap_completedSuits h)) \<and>
     (\<forall>sel. sp_selectedCard s = Some sel \<longrightarrow> sp_selection_ok (sp_tableau s) sel)"

lemma mset_concat_update:
  "i < length t \<Longrightarrow> mset (concat (t[i := p])) + mset (t ! i) = mset (concat t) + mset p"
proof (induction t arbitrary: i)
  case Nil
  then show ?case by simp
next
  case (Cons a t)
  show ?case
  proof (cases i)
    case 0
    then show ?thesis by simp
  next
    case (Suc j)
    with Cons.prems have "j < length t" by simp
    from Cons.IH[OF this] show ?thesis using Suc by (simp add: ac_simps)
  qed
qed

lemma idsOf_update:
  "i < length t \<Longrightarrow> idsOf (t[i := p]) st + image_mset ident (mset (t ! i))
     = idsOf t st + image_mset ident (mset p)"
proof -
  assume "i < length t"
  from mset_concat_update[OF this, of p]
  have "image_mset ident (mset (concat (t[i := p])) + mset (t ! i))
      = image_mset ident (mset (concat t) + mset p)" by simp
  then show ?thesis by (simp add: idsOf_def ac_simps)
qed

text \<open>A move of the suffix of one pile to another pile, as a statement about ids.\<close>

lemma idsOf_move:
  assumes "src < length t" "dst < length t" "src \<noteq> dst"
    and A: "image_mset ident (mset A) + image_mset ident (mset B) + R
            = image_mset ident (mset (t ! src)) + image_mset ident (mset (t ! dst))"
  shows "idsOf (t[src := A, dst := B]) st + R = idsOf t st"
proof -
  let ?t1 = "t[src := A]"
  have 1: "idsOf ?t1 st + image_mset ident (mset (t ! src)) = idsOf t st + image_mset ident (mset A)"
    using idsOf_update[OF assms(1)] .
  have "dst < length ?t1" using assms(2) by simp
  from idsOf_update[OF this, of B st]
  have 2: "idsOf (?t1[dst := B]) st + image_mset ident (mset (t ! dst))
         = idsOf ?t1 st + image_mset ident (mset B)"
    using assms(3) by simp
  have "idsOf (?t1[dst := B]) st + R + (image_mset ident (mset (t ! src)) + image_mset ident (mset (t ! dst)))
      = idsOf t st + (image_mset ident (mset A) + image_mset ident (mset B) + R)"
    using 1 2 by (metis (no_types, lifting) add.assoc add.commute add.left_commute)
  then show ?thesis unfolding A by simp
qed


lemma uniqueIds_mono: "M + R = N \<Longrightarrow> uniqueIds N \<Longrightarrow> uniqueIds M"
proof -
  assume eq: "M + R = N" and u: "uniqueIds N"
  show "uniqueIds M" unfolding uniqueIds_def
  proof
    fix a
    have "count M a \<le> count N a" using eq by auto
    also have "\<dots> \<le> 1" using u by (simp add: uniqueIds_def)
    finally show "count M a \<le> 1" .
  qed
qed

lemma uniqueIds_distinct: "uniqueIds (mset xs) \<longleftrightarrow> distinct xs"
proof
  assume "distinct xs"
  then show "uniqueIds (mset xs)"
    by (simp add: uniqueIds_def distinct_count_atmost_1)
next
  assume u: "uniqueIds (mset xs)"
  show "distinct xs" unfolding distinct_count_atmost_1
  proof
    fix a
    have le: "count (mset xs) a \<le> 1" using u by (simp add: uniqueIds_def)
    show "count (mset xs) a = (if a \<in> set xs then 1 else 0)"
    proof (cases "a \<in> set xs")
      case True
      then have "count (mset xs) a \<noteq> 0" by simp
      with le have "count (mset xs) a = 1" by arith
      with True show ?thesis by simp
    next
      case False
      then show ?thesis by (simp add: count_eq_zero_iff)
    qed
  qed
qed

lemma sp_pile_ok_Nil [simp]: "sp_pile_ok []"
  by (simp add: sp_pile_ok_def)

lemma flipLastCard_val_set: "val ` set (flipLastCard X) = val ` set X"
  using map_val_flipLastCard[of X] by (metis set_map)

lemma vals_flip_take:
  assumes "\<forall>c\<in>set X. 1 \<le> val c"
  shows "\<forall>c\<in>set (flipLastCard (take n X)). 1 \<le> val c"
proof
  fix c assume "c \<in> set (flipLastCard (take n X))"
  then have "val c \<in> val ` set (take n X)" by (metis flipLastCard_val_set imageI)
  then obtain c' where "c' \<in> set (take n X)" "val c' = val c" by auto
  then show "1 \<le> val c" using assms by (metis in_set_takeD)
qed

lemma sp_pile_ok_take_flip:
  assumes "sp_pile_ok pile"
  shows "sp_pile_ok (flipLastCard (take n pile))"
proof -
  from assms have f: "faceDownBelow (take n pile)" and h: "noHiddenRun (take n pile)"
    by (simp_all add: sp_pile_ok_def faceDownBelow_take noHiddenRun_take)
  have v: "\<forall>c\<in>set (flipLastCard (take n pile)). 1 \<le> val c"
    using assms by (intro vals_flip_take) (simp add: sp_pile_ok_def)
  from f h v show ?thesis
    by (simp add: sp_pile_ok_def faceDownBelow_flipLastCard noHiddenRun_flipLastCard)
qed

lemma sp_pile_ok_drop:
  assumes "sp_pile_ok pile" "i < length pile" "faceUp (pile ! i)"
  shows "list_all faceUp (drop i pile)" "\<forall>c\<in>set (drop i pile). 1 \<le> val c"
  using assms faceDownBelow_drop_up[of pile i]
  by (auto simp: sp_pile_ok_def dest: in_set_dropD)

lemma removeCompleted_ok:
  assumes P: "sp_pile_ok P" and S: "isValidSequence S" "list_all faceUp S" "\<forall>c\<in>set S. 1 \<le> val c"
  shows "sp_pile_ok (fst (removeCompleted (P @ S)))"
proof -
  have fd: "faceDownBelow (P @ S)"
    using P S(2) by (auto simp: faceDownBelow_append sp_pile_ok_def list_all_iff faceDownBelow_all_up)
  have hid: "noHiddenRun P" using P by (simp add: sp_pile_ok_def)
  have vals: "\<forall>c\<in>set (P @ S). 1 \<le> val c" using P S(3) by (auto simp: sp_pile_ok_def)
  show ?thesis
  proof (cases "checkForCompletedSuit (P @ S)")
    case None
    then have "fst (removeCompleted (P @ S)) = P @ S" by (simp add: removeCompleted_def)
    moreover have "noHiddenRun (P @ S)" using noHiddenRun_landing[OF hid S(1) S(3) None] .
    ultimately show ?thesis using fd vals by (simp add: sp_pile_ok_def)
  next
    case (Some k)
    from check_Some_D[OF Some] have k: "k = 13" and len: "13 \<le> length (P @ S)" by auto
    let ?m = "length (P @ S) - 13"
    have m: "?m < length (P @ S)" using len by auto
    have eq: "fst (removeCompleted (P @ S)) = flipLastCard (take ?m (P @ S))"
      using Some k by (simp add: removeCompleted_def)
    have 1: "noHiddenRun (take ?m (P @ S))"
      using noHiddenRun_landing_take[OF hid S(1) S(3) m] .
    have 2: "faceDownBelow (take ?m (P @ S))" using fd by (rule faceDownBelow_take)
    have 3: "\<forall>c\<in>set (flipLastCard (take ?m (P @ S))). 1 \<le> val c"
      using vals by (rule vals_flip_take)
    show ?thesis unfolding eq
      using 1 2 3 by (simp add: sp_pile_ok_def faceDownBelow_flipLastCard noHiddenRun_flipLastCard)
  qed
qed

lemma removeCompleted_ids:
  "\<exists>R. image_mset ident (mset (fst (removeCompleted X))) + R = image_mset ident (mset X) \<and>
       int (size R) = 13 * snd (removeCompleted X)"
proof (cases "checkForCompletedSuit X")
  case None
  then show ?thesis by (intro exI[of _ "{#}"]) (simp add: removeCompleted_def)
next
  case (Some k)
  from check_Some_D[OF Some] have k: "k = 13" and len: "13 \<le> length X" by auto
  let ?m = "length X - 13"
  have "mset (map ident (take ?m X)) + mset (map ident (drop ?m X)) = mset (map ident X)"
    by (metis append_take_drop_id map_append mset_append)
  then have "image_mset ident (mset (fst (removeCompleted X))) + image_mset ident (mset (drop ?m X))
      = image_mset ident (mset X)"
    using Some k by (simp add: removeCompleted_def flip: mset_map)
  moreover have "int (size (image_mset ident (mset (drop ?m X)))) = 13 * snd (removeCompleted X)"
    using Some k len by (simp add: removeCompleted_def)
  ultimately show ?thesis by blast
qed


lemma ids_flipLastCard [simp]:
  "image_mset ident (mset (flipLastCard X)) = image_mset ident (mset X)"
  using map_ident_flipLastCard[of X] by (metis mset_map)

lemma ids_take_drop:
  "image_mset ident (mset (take n X)) + image_mset ident (mset (drop n X)) = image_mset ident (mset X)"
  by (metis append_take_drop_id image_mset_union mset_append)

lemma check_drop_None:
  assumes "noHiddenRun pile"
  shows "checkForCompletedSuit (drop i pile) = None"
proof (cases "13 \<le> length (drop i pile)")
  case True
  have "checkForCompletedSuit (take i pile @ drop i pile) = checkForCompletedSuit (drop i pile)"
    using True by (rule check_suffix)
  then show ?thesis using noHiddenRun_self[OF assms] by simp
next
  case False
  then show ?thesis by (simp add: check_None_short)
qed

lemma sp_piles_ok_move:
  assumes ok: "sp_piles_ok t st n"
    and idx: "src < length t" "dst < length t" "src \<noteq> dst"
    and sel: "ci < length (t ! src)" "faceUp (t ! src ! ci)" "isValidSequence (drop ci (t ! src))"
  shows "sp_piles_ok
           (t[src := flipLastCard (take ci (t ! src)),
              dst := fst (removeCompleted (t ! dst @ drop ci (t ! src)))])
           st (n + snd (removeCompleted (t ! dst @ drop ci (t ! src))))"
proof -
  let ?S = "drop ci (t ! src)"
  let ?A = "flipLastCard (take ci (t ! src))"
  let ?X = "t ! dst @ ?S"
  let ?D = "fst (removeCompleted ?X)"
  let ?t' = "t[src := ?A, dst := ?D]"
  have srcok: "sp_pile_ok (t ! src)" and dstok: "sp_pile_ok (t ! dst)"
    using ok idx by (auto simp: sp_piles_ok_def)
  have A: "sp_pile_ok ?A" using srcok by (rule sp_pile_ok_take_flip)
  have D: "sp_pile_ok ?D"
    using removeCompleted_ok[OF dstok sel(3)] sp_pile_ok_drop[OF srcok sel(1,2)] by blast
  have piles: "\<forall>pile\<in>set ?t'. sp_pile_ok pile"
  proof
    fix pile assume "pile \<in> set ?t'"
    then have "pile = ?D \<or> pile = ?A \<or> pile \<in> set t"
      using set_update_subset_insert[of "t[src := ?A]" dst ?D]
            set_update_subset_insert[of t src ?A] by auto
    then show "sp_pile_ok pile" using A D ok by (auto simp: sp_piles_ok_def)
  qed
  obtain R where R: "image_mset ident (mset ?D) + R = image_mset ident (mset ?X)"
    and sz: "int (size R) = 13 * snd (removeCompleted ?X)"
    using removeCompleted_ids[of ?X] by blast
  have "image_mset ident (mset ?A) + image_mset ident (mset ?D) + R
      = image_mset ident (mset (t ! src)) + image_mset ident (mset (t ! dst))"
  proof -
    have "image_mset ident (mset ?A) + (image_mset ident (mset ?D) + R)
        = image_mset ident (mset (take ci (t ! src))) + image_mset ident (mset ?X)"
      using R by simp
    also have "\<dots> = (image_mset ident (mset (take ci (t ! src))) + image_mset ident (mset ?S))
                     + image_mset ident (mset (t ! dst))"
      by simp
    also have "\<dots> = image_mset ident (mset (t ! src)) + image_mset ident (mset (t ! dst))"
      by (simp only: ids_take_drop)
    finally show ?thesis by (simp add: add.assoc)
  qed
  from idsOf_move[OF idx this] have ids: "idsOf ?t' st + R = idsOf t st" .
  have u: "uniqueIds (idsOf ?t' st)"
    using uniqueIds_mono[OF ids] ok by (simp add: sp_piles_ok_def)
  have "int (size (idsOf ?t' st)) + int (size R) = int (size (idsOf t st))"
    using arg_cong[OF ids, of size] by simp
  then have cnt: "int (size (idsOf ?t' st)) + 13 * (n + snd (removeCompleted ?X)) = 104"
    using sz ok by (simp add: sp_piles_ok_def algebra_simps)
  show ?thesis
    using ok piles u cnt by (simp add: sp_piles_ok_def)
qed

lemma sp_piles_ok_move_empty:
  assumes ok: "sp_piles_ok t st n"
    and idx: "src < length t" "dst < length t" "t ! dst = []"
    and sel: "ci < length (t ! src)" "faceUp (t ! src ! ci)" "isValidSequence (drop ci (t ! src))"
  shows "sp_piles_ok (t[src := flipLastCard (take ci (t ! src)), dst := drop ci (t ! src)]) st n"
proof -
  have ne: "src \<noteq> dst" using idx(3) sel(1) by auto
  have "noHiddenRun (t ! src)" using ok idx(1) by (auto simp: sp_piles_ok_def sp_pile_ok_def)
  then have "checkForCompletedSuit (drop ci (t ! src)) = None" by (rule check_drop_None)
  then have "removeCompleted (t ! dst @ drop ci (t ! src)) = (drop ci (t ! src), 0)"
    by (simp add: removeCompleted_def idx(3))
  with sp_piles_ok_move[OF ok idx(1,2) ne sel] show ?thesis by simp
qed

definition sp_moved :: "spider \<Rightarrow> sp_selection \<Rightarrow> nat \<Rightarrow> card list \<Rightarrow> int \<Rightarrow> spider" where
  "sp_moved s sel dst dest completed =
     s\<lparr>sp_history := sp_history s @ [sp_cloneGameState s],
       sp_tableau := (sp_tableau s)
          [sp_pileIndex sel := flipLastCard (take (sp_cardIndex sel) (sp_tableau s ! sp_pileIndex sel)),
           dst := dest],
       sp_completedSuits := sp_completedSuits s + completed,
       sp_moves := sp_moves s + 1,
       sp_selectedCard := None\<rparr>"

lemma sp_handleCardClick_move:
  assumes "\<not> sp_dealingCards s" "\<not> sp_gameWon s"
    and "pileIndex < length (sp_tableau s)" "cardIndex < length (sp_tableau s ! pileIndex)"
    and "faceUp (sp_tableau s ! pileIndex ! cardIndex)"
    and "isValidSequence (drop cardIndex (sp_tableau s ! pileIndex))"
    and "sp_selectedCard s = Some sel" "sp_pileIndex sel \<noteq> pileIndex"
    and "sp_pileIndex sel < length (sp_tableau s)"
    and "canMoveToTableau (sp_cards sel) (sp_tableau s ! pileIndex) = Inr True"
  shows "sp_handleCardClick pileIndex cardIndex s =
     Inr (sp_moved s sel pileIndex
            (fst (removeCompleted (sp_tableau s ! pileIndex @ sp_cards sel)))
            (snd (removeCompleted (sp_tableau s ! pileIndex @ sp_cards sel))))"
  using assms
  by (simp add: sp_handleCardClick_def Let_def sp_moved_def sp_saveToHistory_def
      case_prod_beta list_update_swap[of "sp_pileIndex sel" pileIndex])

lemma sp_handleEmptyPileClick_move:
  assumes "\<not> sp_dealingCards s" "\<not> sp_gameWon s"
    and "sp_selectedCard s = Some sel"
    and "sp_pileIndex sel < length (sp_tableau s)"
  shows "sp_handleEmptyPileClick pileIndex s = Inr (sp_moved s sel pileIndex (sp_cards sel) 0)"
  using assms
  by (simp add: sp_handleEmptyPileClick_def Let_def sp_moved_def sp_saveToHistory_def)

lemma sp_snapshot_ok:
  "sp_piles_ok (sp_tableau s) (sp_stock s) (sp_completedSuits s) \<Longrightarrow>
   sp_piles_ok (snap_tableau (sp_cloneGameState s)) (snap_stock (sp_cloneGameState s))
               (snap_completedSuits (sp_cloneGameState s))"
  by (simp add: sp_cloneGameState_def)

lemma sp_inv_moved:
  assumes inv: "sp_inv s" and sel: "sp_selectedCard s = Some sel"
    and ok: "sp_piles_ok
       ((sp_tableau s)[sp_pileIndex sel := flipLastCard (take (sp_cardIndex sel) (sp_tableau s ! sp_pileIndex sel)),
           dst := dest]) (sp_stock s) (sp_completedSuits s + completed)"
  shows "sp_inv (sp_moved s sel dst dest completed)"
  using inv ok sp_snapshot_ok[of s]
  by (auto simp: sp_inv_def sp_moved_def)

lemma sp_inv_handleCardClick:
  assumes inv: "sp_inv s"
  shows "sp_inv (commit (sp_handleCardClick pileIndex cardIndex s))"
proof -
  let ?t = "sp_tableau s"
  let ?h = "sp_handleCardClick pileIndex cardIndex s"
  show ?thesis
  proof (cases "sp_dealingCards s \<or> sp_gameWon s \<or> \<not> pileIndex < length ?t \<or>
                \<not> cardIndex < length (?t ! pileIndex) \<or> \<not> faceUp (?t ! pileIndex ! cardIndex) \<or>
                \<not> isValidSequence (drop cardIndex (?t ! pileIndex))")
    case True
    then have "commit ?h = s"
      by (auto simp: sp_handleCardClick_def Let_def commit_def)
    then show ?thesis using inv by simp
  next
    case g: False
    show ?thesis
    proof (cases "sp_selectedCard s")
      case None
      then have "commit ?h =
          s\<lparr>sp_selectedCard := Some \<lparr>sp_pileIndex = pileIndex, sp_cardIndex = cardIndex,
                                sp_cards = drop cardIndex (?t ! pileIndex)\<rparr>\<rparr>"
        using g by (simp add: sp_handleCardClick_def Let_def commit_def)
      then show ?thesis using inv g by (simp add: sp_inv_def sp_selection_ok_def)
    next
      case (Some sel)
      from inv Some have selok: "sp_selection_ok ?t sel" by (simp add: sp_inv_def)
      then have src: "sp_pileIndex sel < length ?t"
        and cards: "sp_cards sel = drop (sp_cardIndex sel) (?t ! sp_pileIndex sel)"
        by (simp_all add: sp_selection_ok_def)
      have desel: "sp_inv (s\<lparr>sp_selectedCard := None\<rparr>)" using inv by (simp add: sp_inv_def)
      show ?thesis
      proof (cases "sp_pileIndex sel = pileIndex")
        case True
        then have "commit ?h = s\<lparr>sp_selectedCard := None\<rparr>"
          using g Some by (simp add: sp_handleCardClick_def Let_def commit_def)
        then show ?thesis using desel by simp
      next
        case ne: False
        show ?thesis
        proof (cases "canMoveToTableau (sp_cards sel) (?t ! pileIndex)")
          case (Inl e)
          then have "commit ?h = s"
            using g Some ne by (simp add: sp_handleCardClick_def Let_def commit_def)
          then show ?thesis using inv by simp
        next
          case (Inr b)
          show ?thesis
          proof (cases b)
            case False
            then have "commit ?h = s\<lparr>sp_selectedCard := None\<rparr>"
              using g Some ne Inr by (simp add: sp_handleCardClick_def Let_def commit_def)
            then show ?thesis using desel by simp
          next
            case True
            have eq: "?h = Inr (sp_moved s sel pileIndex
                  (fst (removeCompleted (?t ! pileIndex @ sp_cards sel)))
                  (snd (removeCompleted (?t ! pileIndex @ sp_cards sel))))"
              using g Some ne Inr True src by (intro sp_handleCardClick_move) auto
            have pok: "sp_piles_ok ?t (sp_stock s) (sp_completedSuits s)"
              using inv by (simp add: sp_inv_def)
            have "sp_piles_ok
                 (?t[sp_pileIndex sel := flipLastCard (take (sp_cardIndex sel) (?t ! sp_pileIndex sel)),
                    pileIndex := fst (removeCompleted (?t ! pileIndex @ drop (sp_cardIndex sel) (?t ! sp_pileIndex sel)))])
                 (sp_stock s) (sp_completedSuits s + snd (removeCompleted (?t ! pileIndex @ drop (sp_cardIndex sel) (?t ! sp_pileIndex sel))))"
              using selok g ne by (intro sp_piles_ok_move[OF pok]) (auto simp: sp_selection_ok_def)
            then show ?thesis unfolding eq commit_def
              using sp_inv_moved[OF inv Some] cards by simp
          qed
        qed
      qed
    qed
  qed
qed

lemma sp_inv_handleEmptyPileClick:
  assumes inv: "sp_inv s" and en: "sp_enabled s (SpEmptyPileClick pileIndex)"
  shows "sp_inv (commit (sp_handleEmptyPileClick pileIndex s))"
proof (cases "sp_selectedCard s = None \<or> sp_dealingCards s \<or> sp_gameWon s")
  case True
  then have "commit (sp_handleEmptyPileClick pileIndex s) = s"
    by (auto simp: sp_handleEmptyPileClick_def commit_def split: option.splits)
  then show ?thesis using inv by simp
next
  case False
  then obtain sel where sel: "sp_selectedCard s = Some sel" by auto
  let ?t = "sp_tableau s"
  from inv sel have selok: "sp_selection_ok ?t sel" by (simp add: sp_inv_def)
  then have src: "sp_pileIndex sel < length ?t" and cards: "sp_cards sel = drop (sp_cardIndex sel) (?t ! sp_pileIndex sel)"
    by (simp_all add: sp_selection_ok_def)
  have eq: "sp_handleEmptyPileClick pileIndex s = Inr (sp_moved s sel pileIndex (sp_cards sel) 0)"
    using False sel src by (intro sp_handleEmptyPileClick_move) auto
  have pok: "sp_piles_ok ?t (sp_stock s) (sp_completedSuits s)" using inv by (simp add: sp_inv_def)
  have "sp_piles_ok (?t[sp_pileIndex sel := flipLastCard (take (sp_cardIndex sel) (?t ! sp_pileIndex sel)),
           pileIndex := drop (sp_cardIndex sel) (?t ! sp_pileIndex sel)]) (sp_stock s) (sp_completedSuits s)"
    using selok en by (intro sp_piles_ok_move_empty[OF pok]) (auto simp: sp_selection_ok_def)
  then show ?thesis unfolding eq commit_def
    using sp_inv_moved[OF inv sel, of pileIndex "sp_cards sel" 0] cards by simp
qed

lemma sp_inv_handleUndo:
  assumes inv: "sp_inv s"
  shows "sp_inv (commit (sp_handleUndo s))"
proof (cases "sp_history s = []")
  case True
  then show ?thesis using inv by (simp add: sp_handleUndo_def commit_def)
next
  case False
  then have "last (sp_history s) \<in> set (sp_history s)" by simp
  moreover have "set (butlast (sp_history s)) \<subseteq> set (sp_history s)"
    by (auto dest: in_set_butlastD)
  ultimately show ?thesis using inv False
    by (auto simp: sp_handleUndo_def commit_def sp_inv_def Let_def)
qed

lemma sp_inv_winEffect: "sp_inv s \<Longrightarrow> sp_inv (sp_winEffect s)"
  by (auto simp: sp_inv_def sp_winEffect_def)

lemma dealLoop_spec:
  assumes "length t = 10" "i \<le> 10" "10 - i \<le> length st"
  shows "length (fst (dealLoop i t st)) = 10 \<and>
         snd (dealLoop i t st) = take (length st - (10 - i)) st \<and>
         (\<forall>j<10. fst (dealLoop i t st) ! j =
            (if i \<le> j then t ! j @ [(st ! (length st - 1 - (j - i)))\<lparr>faceUp := True\<rparr>] else t ! j))"
  using assms
proof (induction i t st rule: dealLoop.induct)
  case (1 i t st)
  show ?case
  proof (cases "i < 10 \<and> length st > 0")
    case False
    with "1.prems" have "i = 10" by auto
    then show ?thesis using "1.prems" by (simp add: dealLoop.simps[of 10 t st])
  next
    case True
    let ?c = "(last st)\<lparr>faceUp := True\<rparr>"
    let ?t1 = "t[i := t ! i @ [?c]]"
    have eq: "dealLoop i t st = dealLoop (i + 1) ?t1 (butlast st)"
      using True by (simp add: dealLoop.simps[of i t st])
    have ne: "st \<noteq> []" using True by auto
    have IH: "length (fst (dealLoop (i + 1) ?t1 (butlast st))) = 10 \<and>
         snd (dealLoop (i + 1) ?t1 (butlast st)) = take (length (butlast st) - (10 - (i + 1))) (butlast st) \<and>
         (\<forall>j<10. fst (dealLoop (i + 1) ?t1 (butlast st)) ! j =
            (if i + 1 \<le> j then ?t1 ! j @ [(butlast st ! (length (butlast st) - 1 - (j - (i + 1))))\<lparr>faceUp := True\<rparr>] else ?t1 ! j))"
      using True "1.prems" by (intro "1.IH") auto
    have a: "take (length (butlast st) - (10 - (i + 1))) (butlast st) = take (length st - (10 - i)) st"
    proof -
      have "length (butlast st) - (10 - (i + 1)) = length st - (10 - i)" using True by auto
      moreover have "length st - (10 - i) < length st"
      proof -
        have "0 < length st" "0 < 10 - i" using True by auto
        then show ?thesis by (rule diff_less[rotated])
      qed
      ultimately show ?thesis by (simp add: take_butlast)
    qed
    have b: "\<forall>j<10. (if i + 1 \<le> j then ?t1 ! j @ [(butlast st ! (length (butlast st) - 1 - (j - (i + 1))))\<lparr>faceUp := True\<rparr>] else ?t1 ! j)
           = (if i \<le> j then t ! j @ [(st ! (length st - 1 - (j - i)))\<lparr>faceUp := True\<rparr>] else t ! j)"
    proof (intro allI impI)
      fix j :: nat assume j: "j < 10"
      show "(if i + 1 \<le> j then ?t1 ! j @ [(butlast st ! (length (butlast st) - 1 - (j - (i + 1))))\<lparr>faceUp := True\<rparr>] else ?t1 ! j)
           = (if i \<le> j then t ! j @ [(st ! (length st - 1 - (j - i)))\<lparr>faceUp := True\<rparr>] else t ! j)"
      proof (cases "i + 1 \<le> j")
        case gt: True
        have idx: "length (butlast st) - 1 - (j - (i + 1)) = length st - 1 - (j - i)"
          using gt by auto
        have "length st - 1 - (j - i) < length (butlast st)"
          using gt j "1.prems" by auto
        then have "butlast st ! (length st - 1 - (j - i)) = st ! (length st - 1 - (j - i))"
          by (rule nth_butlast)
        then show ?thesis using gt idx by simp
      next
        case False
        show ?thesis
        proof (cases "j = i")
          case True
          then show ?thesis using ne "1.prems" j by (simp add: last_conv_nth)
        next
          case False
          with \<open>\<not> i + 1 \<le> j\<close> show ?thesis by simp
        qed
      qed
    qed
    show ?thesis unfolding eq using IH a b by simp
  qed
qed

lemma completeLoop_spec:
  assumes "length t = 10" "i \<le> 10"
  shows "length (fst (completeLoop i t n)) = 10 \<and>
         (\<forall>j<10. fst (completeLoop i t n) ! j =
            (if i \<le> j then fst (removeCompleted (t ! j)) else t ! j)) \<and>
         snd (completeLoop i t n) = n + (\<Sum>j = i..<10. snd (removeCompleted (t ! j)))"
  using assms
proof (induction i t n rule: completeLoop.induct)
  case (1 i t n)
  show ?case
  proof (cases "i < 10")
    case False
    with "1.prems" have "i = 10" by auto
    then show ?thesis using "1.prems" by (simp add: completeLoop.simps[of 10 t n])
  next
    case True
    let ?p = "fst (removeCompleted (t ! i))"
    let ?c = "snd (removeCompleted (t ! i))"
    let ?t1 = "t[i := ?p]"
    have eq: "completeLoop i t n = completeLoop (i + 1) ?t1 (n + ?c)"
      using True by (simp add: completeLoop.simps[of i t n] case_prod_beta)
    have IH: "length (fst (completeLoop (i + 1) ?t1 (n + ?c))) = 10 \<and>
         (\<forall>j<10. fst (completeLoop (i + 1) ?t1 (n + ?c)) ! j =
            (if i + 1 \<le> j then fst (removeCompleted (?t1 ! j)) else ?t1 ! j)) \<and>
         snd (completeLoop (i + 1) ?t1 (n + ?c)) = n + ?c + (\<Sum>j = i + 1..<10. snd (removeCompleted (?t1 ! j)))"
      using True "1.prems" by (intro "1.IH"[OF True, of "removeCompleted (t ! i)" ?p ?c]) auto
    have s: "(\<Sum>j = i + 1..<10. snd (removeCompleted (?t1 ! j))) = (\<Sum>j = i + 1..<10. snd (removeCompleted (t ! j)))"
      by (rule sum.cong) auto
    have s2: "(\<Sum>j = i..<10. snd (removeCompleted (t ! j))) = ?c + (\<Sum>j = i + 1..<10. snd (removeCompleted (t ! j)))"
      using True by (simp add: sum.atLeast_Suc_lessThan)
    have b: "\<forall>j<10. (if i + 1 \<le> j then fst (removeCompleted (?t1 ! j)) else ?t1 ! j)
                = (if i \<le> j then fst (removeCompleted (t ! j)) else t ! j)"
    proof (intro allI impI)
      fix j :: nat assume j: "j < 10"
      have "i \<le> j \<and> \<not> i + 1 \<le> j \<longleftrightarrow> j = i" by auto
      then show "(if i + 1 \<le> j then fst (removeCompleted (?t1 ! j)) else ?t1 ! j)
                = (if i \<le> j then fst (removeCompleted (t ! j)) else t ! j)"
        using "1.prems" j by (cases "j = i") auto
    qed
    show ?thesis unfolding eq using IH b s s2 by simp
  qed
qed

lemma idsOf_butlast:
  "st \<noteq> [] \<Longrightarrow> idsOf t (butlast st) + {#ident (last st)#} = idsOf t st"
proof -
  assume "st \<noteq> []"
  then have "mset (butlast st) + {#last st#} = mset st"
    by (metis append_butlast_last_id mset_append mset_single_iff_right add_mset_add_single mset.simps(1,2) union_mset_add_mset_right add.right_neutral)
  then have "image_mset ident (mset (butlast st)) + {#ident (last st)#} = image_mset ident (mset st)"
    by (metis image_mset_single image_mset_union)
  then show ?thesis by (simp add: idsOf_def ac_simps)
qed

lemma dealLoop_ids:
  "length t = 10 \<Longrightarrow> idsOf (fst (dealLoop i t st)) (snd (dealLoop i t st)) = idsOf t st"
proof (induction i t st rule: dealLoop.induct)
  case (1 i t st)
  show ?case
  proof (cases "i < 10 \<and> length st > 0")
    case False
    then have "dealLoop i t st = (t, st)" by (subst dealLoop.simps) auto
    then show ?thesis by simp
  next
    case True
    let ?c = "(last st)\<lparr>faceUp := True\<rparr>"
    let ?t1 = "t[i := t ! i @ [?c]]"
    have eq: "dealLoop i t st = dealLoop (i + 1) ?t1 (butlast st)"
      using True by (simp add: dealLoop.simps[of i t st])
    have "idsOf (fst (dealLoop (i + 1) ?t1 (butlast st))) (snd (dealLoop (i + 1) ?t1 (butlast st)))
        = idsOf ?t1 (butlast st)"
      using True "1.prems" by (intro "1.IH") auto
    moreover have "idsOf ?t1 (butlast st) = idsOf t st"
    proof -
      have "i < length t" using True "1.prems" by simp
      from idsOf_update[OF this, of "t ! i @ [?c]" "butlast st"]
      have "idsOf ?t1 (butlast st) = idsOf t (butlast st) + {#ident (last st)#}" by simp
      then show ?thesis using idsOf_butlast[of st t] True by simp
    qed
    ultimately show ?thesis unfolding eq by simp
  qed
qed

lemma completeLoop_ids:
  "length t = 10 \<Longrightarrow>
   \<exists>R. idsOf (fst (completeLoop i t n)) st + R = idsOf t st \<and>
       int (size R) = 13 * (snd (completeLoop i t n) - n)"
proof (induction i t n rule: completeLoop.induct)
  case (1 i t n)
  show ?case
  proof (cases "i < 10")
    case False
    then show ?thesis by (intro exI[of _ "{#}"]) (simp add: completeLoop.simps[of i t n])
  next
    case True
    let ?p = "fst (removeCompleted (t ! i))"
    let ?c = "snd (removeCompleted (t ! i))"
    let ?t1 = "t[i := ?p]"
    have eq: "completeLoop i t n = completeLoop (i + 1) ?t1 (n + ?c)"
      using True by (simp add: completeLoop.simps[of i t n] case_prod_beta)
    obtain R1 where R1: "idsOf (fst (completeLoop (i + 1) ?t1 (n + ?c))) st + R1 = idsOf ?t1 st"
      and sz1: "int (size R1) = 13 * (snd (completeLoop (i + 1) ?t1 (n + ?c)) - (n + ?c))"
      using "1.IH"[OF True, of "removeCompleted (t ! i)" ?p ?c] "1.prems" by auto
    obtain R2 where R2: "image_mset ident (mset ?p) + R2 = image_mset ident (mset (t ! i))"
      and sz2: "int (size R2) = 13 * ?c"
      using removeCompleted_ids[of "t ! i"] by blast
    have "i < length t" using True "1.prems" by simp
    from idsOf_update[OF this, of ?p st]
    have "idsOf ?t1 st + (image_mset ident (mset ?p) + R2) = idsOf t st + image_mset ident (mset ?p)"
      unfolding R2 .
    then have "idsOf ?t1 st + R2 = idsOf t st"
      by (simp add: ac_simps)
    then have "idsOf (fst (completeLoop (i + 1) ?t1 (n + ?c))) st + (R1 + R2) = idsOf t st"
      using R1 by (simp add: add.assoc[symmetric])
    moreover have "int (size (R1 + R2)) = 13 * (snd (completeLoop (i + 1) ?t1 (n + ?c)) - n)"
      using sz1 sz2 by (simp add: algebra_simps)
    ultimately show ?thesis unfolding eq by blast
  qed
qed

definition sp_dealt :: "spider \<Rightarrow> spider" where
  "sp_dealt s =
     s\<lparr>sp_history := sp_history s @ [sp_cloneGameState s],
       sp_tableau := fst (completeLoop 0 (fst (dealLoop 0 (sp_tableau s) (sp_stock s))) (sp_completedSuits s)),
       sp_stock := snd (dealLoop 0 (sp_tableau s) (sp_stock s)),
       sp_completedSuits := snd (completeLoop 0 (fst (dealLoop 0 (sp_tableau s) (sp_stock s))) (sp_completedSuits s)),
       sp_moves := sp_moves s + 1,
       sp_selectedCard := None\<rparr>"

lemma sp_handleStockClick_deal:
  assumes "sp_stock s \<noteq> []" "\<not> sp_dealingCards s" "\<not> sp_gameWon s"
    and "\<forall>pile\<in>set (sp_tableau s). pile \<noteq> []" "length (sp_tableau s) = 10"
  shows "sp_handleStockClick s = Inr (sp_dealt s)"
  using assms
  by (simp add: sp_handleStockClick_def sp_dealt_def Let_def case_prod_beta list_ex_iff
      sp_saveToHistory_def)

lemma sp_handleStockClick_noop:
  assumes "sp_stock s = [] \<or> sp_dealingCards s \<or> sp_gameWon s \<or> (\<exists>pile\<in>set (sp_tableau s). pile = [])"
  shows "sp_handleStockClick s = Inr s"
  using assms by (auto simp: sp_handleStockClick_def list_ex_iff)

lemma sp_inv_handleStockClick:
  assumes inv: "sp_inv s"
  shows "sp_inv (commit (sp_handleStockClick s))"
proof (cases "sp_stock s = [] \<or> sp_dealingCards s \<or> sp_gameWon s \<or> (\<exists>pile\<in>set (sp_tableau s). pile = [])")
  case True
  then show ?thesis using inv sp_handleStockClick_noop[OF True] by (simp add: commit_def)
next
  case False
  let ?t = "sp_tableau s" and ?st = "sp_stock s" and ?n = "sp_completedSuits s"
  let ?t1 = "fst (dealLoop 0 ?t ?st)" and ?st1 = "snd (dealLoop 0 ?t ?st)"
  let ?t2 = "fst (completeLoop 0 ?t1 ?n)" and ?n2 = "snd (completeLoop 0 ?t1 ?n)"
  have pok: "sp_piles_ok ?t ?st ?n" using inv by (simp add: sp_inv_def)
  then have len: "length ?t = 10" and dvd: "10 dvd length ?st" by (simp_all add: sp_piles_ok_def)
  have "length ?st \<noteq> 0" using False by simp
  with dvd have st10: "10 \<le> length ?st" by (intro dvd_imp_le) auto
  have eq: "sp_handleStockClick s = Inr (sp_dealt s)"
    using False len by (intro sp_handleStockClick_deal) auto
  from dealLoop_spec[OF len, of 0 ?st] st10
  have d1: "length ?t1 = 10" and d2: "?st1 = take (length ?st - 10) ?st"
    and d3: "\<And>j. j < 10 \<Longrightarrow> ?t1 ! j = ?t ! j @ [(?st ! (length ?st - 1 - j))\<lparr>faceUp := True\<rparr>]"
    by auto
  from completeLoop_spec[OF d1, of 0 ?n]
  have c1: "length ?t2 = 10" and c2: "\<And>j. j < 10 \<Longrightarrow> ?t2 ! j = fst (removeCompleted (?t1 ! j))"
    by auto
  have piles: "\<forall>pile\<in>set ?t2. sp_pile_ok pile"
  proof
    fix pile assume "pile \<in> set ?t2"
    then obtain j where j: "j < 10" and p: "pile = ?t2 ! j"
      using c1 by (metis in_set_conv_nth)
    let ?c = "(?st ! (length ?st - 1 - j))\<lparr>faceUp := True\<rparr>"
    have "?st ! (length ?st - 1 - j) \<in> set ?st" using st10 j by (intro nth_mem) auto
    then have v: "1 \<le> val ?c" using pok by (auto simp: sp_piles_ok_def)
    have "sp_pile_ok (?t ! j)" using pok j len by (auto simp: sp_piles_ok_def)
    from removeCompleted_ok[OF this, of "[?c]"] v
    have "sp_pile_ok (fst (removeCompleted (?t ! j @ [?c])))" by simp
    then show "sp_pile_ok pile" using p c2[OF j] d3[OF j] by simp
  qed
  have stock: "\<forall>c\<in>set ?st1. 1 \<le> val c"
    using pok unfolding d2 by (auto simp: sp_piles_ok_def dest: in_set_takeD)
  have dvd1: "10 dvd length ?st1"
    using dvd st10 unfolding d2 by (simp add: min_def dvd_diff_nat)
  obtain R where R: "idsOf ?t2 ?st1 + R = idsOf ?t1 ?st1"
    and sz: "int (size R) = 13 * (?n2 - ?n)"
    using completeLoop_ids[OF d1, of 0 ?n ?st1] by blast
  have ids: "idsOf ?t2 ?st1 + R = idsOf ?t ?st"
    using R dealLoop_ids[OF len, of 0 ?st] by simp
  have u: "uniqueIds (idsOf ?t2 ?st1)"
    using uniqueIds_mono[OF ids] pok by (simp add: sp_piles_ok_def)
  have "int (size (idsOf ?t2 ?st1)) + int (size R) = int (size (idsOf ?t ?st))"
    using arg_cong[OF ids, of size] by simp
  then have cnt: "int (size (idsOf ?t2 ?st1)) + 13 * ?n2 = 104"
    using sz pok by (simp add: sp_piles_ok_def algebra_simps)
  have "sp_piles_ok ?t2 ?st1 ?n2"
    using c1 piles stock dvd1 u cnt by (simp add: sp_piles_ok_def)
  then show ?thesis unfolding eq commit_def
    using inv sp_snapshot_ok[OF pok] by (auto simp: sp_inv_def sp_dealt_def)
qed

lemma createSpiderDeck_cases:
  "createSpiderDeck n = createSpiderDeck 1 \<or> createSpiderDeck n = createSpiderDeck 2 \<or>
   createSpiderDeck n = createSpiderDeck 4"
  by (simp add: createSpiderDeck_def suitsToUse_def)


lemma createSpiderDeck_index:
  "map (\<lambda>c. case ident c of SpiderId s r d k \<Rightarrow> k | KlondikeId s r \<Rightarrow> 0) (createSpiderDeck n) = [0..<104]"
proof -
  have "\<forall>m\<in>{1,2,4}. map (\<lambda>c. case ident c of SpiderId s r d k \<Rightarrow> k | KlondikeId s r \<Rightarrow> 0) (createSpiderDeck m) = [0..<104]"
    by code_simp
  then show ?thesis using createSpiderDeck_cases[of n] by auto
qed

lemma createSpiderDeck_length: "length (createSpiderDeck n) = 104"
  using arg_cong[OF createSpiderDeck_index[of n], of length] by simp

lemma createSpiderDeck_distinct: "distinct (map ident (createSpiderDeck n))"
proof -
  have "distinct (map (\<lambda>c. case c of SpiderId s r d k \<Rightarrow> k | KlondikeId s r \<Rightarrow> 0) (map ident (createSpiderDeck n)))"
    using createSpiderDeck_index[of n] by (simp add: comp_def)
  then show ?thesis by (rule distinct_map[THEN iffD1, THEN conjunct1])
qed

lemma createSpiderDeck_val: "c \<in> set (createSpiderDeck n) \<Longrightarrow> 1 \<le> val c \<and> val c \<le> 13"
  by (auto simp: createSpiderDeck_def mkCard_def RANKS_def)


lemma sp_dealPile_ids:
  "off + cnt \<le> length deck \<Longrightarrow> map ident (sp_dealPile deck off cnt) = map ident (take cnt (drop off deck))"
  by (auto simp: sp_dealPile_def intro!: nth_equalityI)

lemma sp_dealFrom_ids:
  "off + sum_list (map (\<lambda>pile. if pile < 4 then 6 else 5) ps) \<le> length deck \<Longrightarrow>
   map ident (concat (sp_dealFrom deck ps off))
     = map ident (take (sum_list (map (\<lambda>pile. if pile < 4 then 6 else 5) ps)) (drop off deck))"
proof (induction ps arbitrary: off)
  case Nil
  then show ?case by simp
next
  case (Cons p ps)
  let ?c = "if p < 4 then 6 else 5 :: nat"
  let ?r = "sum_list (map (\<lambda>pile. if pile < 4 then 6 else 5) ps)"
  have 1: "map ident (sp_dealPile deck off ?c) = map ident (take ?c (drop off deck))"
    using Cons.prems by (intro sp_dealPile_ids) auto
  have 2: "map ident (concat (sp_dealFrom deck ps (off + ?c))) = map ident (take ?r (drop (off + ?c) deck))"
    using Cons.prems by (intro Cons.IH) (auto simp: add.assoc)
  have "take (?c + ?r) (drop off deck) = take ?c (drop off deck) @ take ?r (drop (off + ?c) deck)"
    by (simp add: take_add add.commute)
  then show ?case using 1 2 by (simp add: Let_def)
qed

lemma sp_dealFrom_length: "length (sp_dealFrom deck ps off) = length ps"
  by (induction ps arbitrary: off) (auto simp: Let_def)

lemma sp_dealFrom_piles:
  "pile \<in> set (sp_dealFrom deck ps off) \<Longrightarrow>
     \<exists>ofs c. pile = sp_dealPile deck ofs c \<and> c \<le> 6 \<and> off \<le> ofs \<and>
           ofs + c \<le> off + sum_list (map (\<lambda>pile. if pile < 4 then 6 else 5) ps)"
proof (induction ps arbitrary: off)
  case Nil
  then show ?case by simp
next
  case (Cons p ps)
  let ?c = "if p < 4 then 6 else 5 :: nat"
  from Cons.prems have "pile = sp_dealPile deck off ?c \<or> pile \<in> set (sp_dealFrom deck ps (off + ?c))"
    by (auto simp: Let_def)
  then show ?case
  proof
    assume "pile = sp_dealPile deck off ?c"
    then show ?thesis by (intro exI[of _ off] exI[of _ ?c]) auto
  next
    assume "pile \<in> set (sp_dealFrom deck ps (off + ?c))"
    from Cons.IH[OF this] obtain ofs c where "pile = sp_dealPile deck ofs c" "c \<le> 6" "off + ?c \<le> ofs"
      "ofs + c \<le> off + ?c + sum_list (map (\<lambda>pile. if pile < 4 then 6 else 5) ps)" by blast
    then show ?thesis by (intro exI[of _ ofs] exI[of _ c]) auto
  qed
qed

lemma sp_dealPile_ok:
  assumes "ofs + c \<le> length deck" "c \<le> 6" "\<forall>x\<in>set deck. 1 \<le> val x"
  shows "sp_pile_ok (sp_dealPile deck ofs c)"
proof -
  have len: "length (sp_dealPile deck ofs c) = c" by (simp add: sp_dealPile_def)
  have "noHiddenRun (sp_dealPile deck ofs c)"
    unfolding noHiddenRun_def using len assms(2) by (auto intro!: check_None_short)
  moreover have "faceDownBelow (sp_dealPile deck ofs c)"
    unfolding faceDownBelow_def sorted_wrt_iff_nth_less
    by (auto simp: sp_dealPile_def)
  moreover have "\<forall>x\<in>set (sp_dealPile deck ofs c). 1 \<le> val x"
    using assms(1,3) by (auto simp: sp_dealPile_def)
  ultimately show ?thesis by (simp add: sp_pile_ok_def)
qed

lemma sp_inv_initGame:
  assumes "mset deck = mset (createSpiderDeck n)"
  shows "sp_inv (sp_initGame deck)"
proof -
  have len: "length deck = 104"
    using arg_cong[OF assms, of size] by (simp add: createSpiderDeck_length)
  have "set deck = set (createSpiderDeck n)" using assms by (rule mset_eq_setD)
  then have vals: "\<forall>x\<in>set deck. 1 \<le> val x" using createSpiderDeck_val by blast
  let ?t = "sp_dealFrom deck [0..<10] 0"
  let ?st = "map (\<lambda>c. c\<lparr>faceUp := False\<rparr>) (drop 54 deck)"
  have sum: "sum_list (map (\<lambda>pile. if pile < 4 then 6 else 5) [0..<10]) = (54::nat)"
    by (simp add: upt_rec)
  have piles: "\<forall>pile\<in>set ?t. sp_pile_ok pile"
  proof
    fix pile assume "pile \<in> set ?t"
    from sp_dealFrom_piles[OF this] obtain ofs c where "pile = sp_dealPile deck ofs c" "c \<le> 6" "ofs + c \<le> 54"
      unfolding sum by auto
    then show "sp_pile_ok pile" using sp_dealPile_ok[of ofs c deck] len vals by simp
  qed
  have "map ident (concat ?t) = map ident (take 54 deck)"
    using sp_dealFrom_ids[of 0 "[0..<10]" deck] len unfolding sum by simp
  moreover have "map ident ?st = map ident (drop 54 deck)" by simp
  ultimately have "map ident (concat ?t @ ?st) = map ident deck"
    by (metis append_take_drop_id map_append)
  then have ids: "idsOf ?t ?st = image_mset ident (mset deck)"
    unfolding idsOf_def by (metis mset_append mset_map)
  have "uniqueIds (mset (map ident (createSpiderDeck n)))"
    using createSpiderDeck_distinct by (simp only: uniqueIds_distinct)
  then have u: "uniqueIds (idsOf ?t ?st)" unfolding ids assms by simp
  have sz: "size (idsOf ?t ?st) = 104" unfolding ids using len by simp
  have "sp_piles_ok ?t ?st 0"
    using piles vals u sz len by (auto simp: sp_piles_ok_def sp_dealFrom_length dest: in_set_dropD)
  then show ?thesis by (simp add: sp_inv_def sp_initGame_def)
qed

theorem sp_reachable_inv: "sp_reachable s \<Longrightarrow> sp_inv s"
proof (induction rule: sp_reachable.induct)
  case (sp_init deck suitCount)
  then show ?case by (rule sp_inv_initGame)
next
  case (sp_next s a)
  have "sp_inv (commit (sp_handler a s))"
  proof (cases a)
    case (SpCardClick p i)
    then show ?thesis using sp_next.IH by (simp add: sp_inv_handleCardClick)
  next
    case (SpEmptyPileClick p)
    then show ?thesis using sp_next.IH sp_next.hyps(2) by (simp add: sp_inv_handleEmptyPileClick)
  next
    case SpStockClick
    then show ?thesis using sp_next.IH by (simp add: sp_inv_handleStockClick)
  next
    case SpUndo
    then show ?thesis using sp_next.IH by (simp add: sp_inv_handleUndo)
  next
    case SpDealingDone
    then show ?thesis using sp_next.IH by (simp add: commit_def sp_inv_def)
  qed
  then show ?case unfolding sp_step_def by (rule sp_inv_winEffect)
qed

fun sp_playable :: "spider \<Rightarrow> sp_action list \<Rightarrow> bool" where
  "sp_playable s [] = True"
| "sp_playable s (a # as) = (sp_enabled s a \<and> sp_playable (sp_step s a) as)"

definition sp_play :: "spider \<Rightarrow> sp_action list \<Rightarrow> spider" where
  "sp_play s as = foldl sp_step s as"

lemma sp_reachable_play:
  "sp_reachable s \<Longrightarrow> sp_playable s as \<Longrightarrow> sp_reachable (sp_play s as)"
  unfolding sp_play_def by (induction as arbitrary: s) (auto intro: sp_next)

text \<open>
  A game used for the concrete checks: a one-suit deck arranged so that five stock deals
  build King to Eight on pile 0 and Seven to Two on pile 1, with an Ace on top of pile 2.
\<close>

definition demoDeck :: "card list" where
  "demoDeck = map (nth (createSpiderDeck 1))
     ([13, 14, 15, 16, 17, 12, 18, 19, 20, 21, 22, 6] @ [23..<72] @
      [0, 1, 7, 72, 73, 74, 75, 76, 77, 78, 79, 2, 8, 80, 81, 82, 83, 84, 85, 86, 87, 3, 9] @
      [88, 89, 90, 91, 92, 93, 94, 95, 4, 10, 96, 97, 98, 99, 100, 101, 102, 103, 5, 11])"

definition demoDeals :: "sp_action list" where
  "demoDeals = [SpDealingDone, SpStockClick, SpStockClick, SpStockClick, SpStockClick, SpStockClick]"

definition demoBeforeCompletion :: spider where
  "demoBeforeCompletion =
     sp_play (sp_initGame demoDeck)
       (demoDeals @ [SpCardClick 1 5, SpCardClick 0 10, SpCardClick 2 10])"

lemma demoDeck_shuffled: "mset demoDeck = mset (createSpiderDeck 1)"
proof -
  let ?p = "[13, 14, 15, 16, 17, 12, 18, 19, 20, 21, 22, 6] @ [23..<72] @
      [0, 1, 7, 72, 73, 74, 75, 76, 77, 78, 79, 2, 8, 80, 81, 82, 83, 84, 85, 86, 87, 3, 9] @
      [88, 89, 90, 91, 92, 93, 94, 95, 4, 10, 96, 97, 98, 99, 100, 101, 102, 103, 5, 11] :: nat list"
  have "sort ?p = [0..<104]" by code_simp
  then have "mset ?p = mset [0..<104]" by (metis mset_sort)
  then have "mset (map (nth (createSpiderDeck 1)) ?p) = mset (map (nth (createSpiderDeck 1)) [0..<104])"
    by (metis mset_map)
  also have "map (nth (createSpiderDeck 1)) [0..<104] = createSpiderDeck 1"
    using map_nth[of "createSpiderDeck 1"] by (simp add: createSpiderDeck_length)
  finally show ?thesis by (simp add: demoDeck_def)
qed

lemma demoBeforeCompletion_reachable: "sp_reachable demoBeforeCompletion"
proof -
  have "sp_playable (sp_initGame demoDeck) (demoDeals @ [SpCardClick 1 5, SpCardClick 0 10, SpCardClick 2 10])"
    by code_simp
  then show ?thesis unfolding demoBeforeCompletion_def
    by (intro sp_reachable_play sp_init[OF demoDeck_shuffled])
qed

definition kingToAce :: "int list" where
  "kingToAce = [13, 12, 11, 10, 9, 8, 7, 6, 5, 4, 3, 2, 1]"

definition suit_complete_run :: "card list \<Rightarrow> bool" where
  "suit_complete_run pile \<longleftrightarrow>
     13 \<le> length pile \<and>
     (let top13 = drop (length pile - 13) pile in
        (\<forall>c\<in>set top13. faceUp c) \<and> (\<forall>c\<in>set top13. suit c = suit (hd top13)) \<and>
        map val top13 = kingToAce)"

lemma kingToAce_upt: "kingToAce = map (\<lambda>i. 13 - int i) [0..<13]"
  by code_simp

lemma values_king_to_ace:
  assumes "length l = 13"
  shows "list_all (\<lambda>i. val (l ! i) = 13 - int i) [0..<13] \<longleftrightarrow> map val l = kingToAce"
proof -
  have A: "list_all (\<lambda>i. val (l ! i) = 13 - int i) [0..<13] \<longleftrightarrow> (\<forall>i<13. val (l ! i) = 13 - int i)"
    by (simp only: list_all_iff set_upt atLeast0LessThan Ball_def lessThan_iff)
  have B: "map val l = map (\<lambda>i. 13 - int i) [0..<13] \<longleftrightarrow> (\<forall>i<13. val (l ! i) = 13 - int i)"
  proof
    assume eq: "map val l = map (\<lambda>i. 13 - int i) [0..<13]"
    show "\<forall>i<13. val (l ! i) = 13 - int i"
    proof (intro allI impI)
      fix i :: nat assume i: "i < 13"
      have "map val l ! i = val (l ! i)" using i assms by (simp only: nth_map)
      moreover have "map (\<lambda>i. 13 - int i) [0..<13] ! i = 13 - int i"
        using i by (simp only: nth_map length_upt nth_upt diff_zero add_0)
      ultimately show "val (l ! i) = 13 - int i" using eq by (simp only:)
    qed
  next
    assume all: "\<forall>i<13. val (l ! i) = 13 - int i"
    show "map val l = map (\<lambda>i. 13 - int i) [0..<13]"
    proof (rule nth_equalityI)
      show "length (map val l) = length (map (\<lambda>i. 13 - int i) [0..<13])"
        using assms by (simp only: length_map length_upt diff_zero)
    next
      fix i assume "i < length (map val l)"
      then have i: "i < 13" using assms by (simp only: length_map)
      have "map val l ! i = val (l ! i)" using i assms by (simp only: nth_map)
      moreover have "map (\<lambda>i. 13 - int i) [0..<13] ! i = 13 - int i"
        using i by (simp only: nth_map length_upt nth_upt diff_zero add_0)
      ultimately show "map val l ! i = map (\<lambda>i. 13 - int i) [0..<13] ! i"
        using all i by (simp only:)
    qed
  qed
  from A B show ?thesis by (simp only: kingToAce_upt)
qed

lemma check_iff_suit_complete_run:
  "checkForCompletedSuit pile = (if suit_complete_run pile then Some 13 else None)"
proof (cases "13 \<le> length pile")
  case False
  then show ?thesis by (simp add: checkForCompletedSuit_def suit_complete_run_def)
next
  case True
  let ?l = "drop (length pile - 13) pile"
  have len: "length ?l = 13" using True by simp
  then have hd: "?l ! 0 = hd ?l" by (cases ?l) auto
  have 1: "suit_complete_run pile \<longleftrightarrow>
      list_all faceUp ?l \<and> list_all (\<lambda>c. suit c = suit (?l ! 0)) ?l \<and> map val ?l = kingToAce"
    using True by (simp add: suit_complete_run_def Let_def list_all_iff hd)
  have 2: "checkForCompletedSuit pile =
      (if list_all faceUp ?l \<and> list_all (\<lambda>c. suit c = suit (?l ! 0)) ?l \<and>
          list_all (\<lambda>i. val (?l ! i) = 13 - int i) [0..<13] then Some 13 else None)"
    using True by (simp add: checkForCompletedSuit_def Let_def del: upt_rec_numeral)
  show ?thesis unfolding 1 2 values_king_to_ace[OF len] ..
qed

lemma removeCompleted_spec:
  "removeCompleted pile =
     (if suit_complete_run pile then (flipLastCard (take (length pile - 13) pile), 1) else (pile, 0))"
  by (simp add: removeCompleted_def check_iff_suit_complete_run)

lemma sp_winEffect_fields [simp]:
  "sp_tableau (sp_winEffect s) = sp_tableau s"
  "sp_stock (sp_winEffect s) = sp_stock s"
  "sp_completedSuits (sp_winEffect s) = sp_completedSuits s"
  "sp_moves (sp_winEffect s) = sp_moves s"
  "sp_history (sp_winEffect s) = sp_history s"
  "sp_selectedCard (sp_winEffect s) = sp_selectedCard s"
  by (simp_all add: sp_winEffect_def)

text \<open>
  Claim C8. After every executed Spider move that lands the selected cards on tableau pile
  \<open>p\<close> (a click on a card of a non-empty pile that accepts them, or a click on the slot of
  an empty pile), the pile \<open>p\<close> is as if it had been checked for a suit-complete run: when
  the landed pile ends in thirteen face-up cards of one suit running King down to Ace,
  exactly those thirteen are gone, one more suit is counted and the new top card, if any,
  is face-up; otherwise the landed pile is kept and the count is unchanged. The handler of
  the empty slot runs no check, and needs none: in a reachable state the selected cards never
  form a complete run.
\<close>

theorem spider_landing_checks_complete_suit:
  assumes "sp_reachable s" and "sp_selectedCard s = Some sel"
    and "\<not> sp_dealingCards s" and "\<not> sp_gameWon s" and "sp_enabled s a"
    and "a = SpCardClick p i \<and> isValidSequence (drop i (sp_tableau s ! p)) \<and>
           sp_pileIndex sel \<noteq> p \<and> canMoveToTableau (sp_cards sel) (sp_tableau s ! p) = Inr True
         \<or> a = SpEmptyPileClick p"
  shows "sp_moves (sp_step s a) = sp_moves s + 1 \<and>
     (if suit_complete_run (sp_tableau s ! p @ sp_cards sel)
      then sp_tableau (sp_step s a) ! p =
             flipLastCard (take (length (sp_tableau s ! p @ sp_cards sel) - 13)
                                (sp_tableau s ! p @ sp_cards sel)) \<and>
           sp_completedSuits (sp_step s a) = sp_completedSuits s + 1 \<and>
           (sp_tableau (sp_step s a) ! p \<noteq> [] \<longrightarrow> faceUp (last (sp_tableau (sp_step s a) ! p)))
      else sp_tableau (sp_step s a) ! p = sp_tableau s ! p @ sp_cards sel \<and>
           sp_completedSuits (sp_step s a) = sp_completedSuits s)"
proof -
  let ?t = "sp_tableau s"
  let ?landed = "?t ! p @ sp_cards sel"
  have inv: "sp_inv s" using assms(1) by (rule sp_reachable_inv)
  then have selok: "sp_selection_ok ?t sel" using assms(2) by (simp add: sp_inv_def)
  then have src: "sp_pileIndex sel < length ?t"
    and cards: "sp_cards sel = drop (sp_cardIndex sel) (?t ! sp_pileIndex sel)"
    by (simp_all add: sp_selection_ok_def)
  from assms(6) show ?thesis
  proof
    assume a: "a = SpCardClick p i \<and> isValidSequence (drop i (?t ! p)) \<and>
           sp_pileIndex sel \<noteq> p \<and> canMoveToTableau (sp_cards sel) (?t ! p) = Inr True"
    then have en: "p < length ?t" "i < length (?t ! p)" "faceUp (?t ! p ! i)"
      using assms(5) by auto
    have eq: "sp_handleCardClick p i s =
       Inr (sp_moved s sel p (fst (removeCompleted ?landed)) (snd (removeCompleted ?landed)))"
      using assms(2,3,4) a en src by (intro sp_handleCardClick_move) auto
    have top: "?t ! p @ sp_cards sel \<noteq> [] \<Longrightarrow> take (length ?landed - 13) ?landed \<noteq> [] \<Longrightarrow>
        faceUp (last (flipLastCard (take (length ?landed - 13) ?landed)))"
      by (rule faceUp_last_flipLastCard)
    show ?thesis
      using a eq en top
      by (simp add: sp_step_def commit_def sp_moved_def removeCompleted_spec
               faceUp_last_flipLastCard)
  next
    assume a: "a = SpEmptyPileClick p"
    then have en: "p < length ?t" "?t ! p = []" using assms(5) by auto
    have eq: "sp_handleEmptyPileClick p s = Inr (sp_moved s sel p (sp_cards sel) 0)"
      using assms(2,3,4) src by (intro sp_handleEmptyPileClick_move) auto
    have "noHiddenRun (?t ! sp_pileIndex sel)"
      using inv src by (auto simp: sp_inv_def sp_piles_ok_def sp_pile_ok_def)
    then have "checkForCompletedSuit (sp_cards sel) = None"
      unfolding cards by (rule check_drop_None)
    then have "\<not> suit_complete_run (sp_cards sel)"
      by (simp add: check_iff_suit_complete_run split: if_splits)
    then show ?thesis
      using a eq en by (simp add: sp_step_def commit_def sp_moved_def)
  qed
qed

theorem spider_landing_checks_complete_suit_witness:
  "sp_reachable demoBeforeCompletion \<and>
   sp_selectedCard demoBeforeCompletion = Some \<lparr>sp_pileIndex = 2, sp_cardIndex = 10,
       sp_cards = [(createSpiderDeck 1 ! 0)\<lparr>faceUp := True\<rparr>]\<rparr> \<and>
   sp_enabled demoBeforeCompletion (SpCardClick 0 16) \<and>
   suit_complete_run (sp_tableau demoBeforeCompletion ! 0 @ [(createSpiderDeck 1 ! 0)\<lparr>faceUp := True\<rparr>]) \<and>
   length (sp_tableau demoBeforeCompletion ! 0) = 17 \<and>
   sp_tableau (sp_step demoBeforeCompletion (SpCardClick 0 16)) ! 0 =
     flipLastCard (take 5 (sp_tableau demoBeforeCompletion ! 0)) \<and>
   faceUp (last (sp_tableau (sp_step demoBeforeCompletion (SpCardClick 0 16)) ! 0)) \<and>
   sp_completedSuits (sp_step demoBeforeCompletion (SpCardClick 0 16)) = sp_completedSuits demoBeforeCompletion + 1 \<and>
   sp_moves (sp_step demoBeforeCompletion (SpCardClick 0 16)) = sp_moves demoBeforeCompletion + 1"
proof -
  let ?s = "demoBeforeCompletion"
  let ?sel = "\<lparr>sp_pileIndex = 2, sp_cardIndex = 10, sp_cards = [(createSpiderDeck 1 ! 0)\<lparr>faceUp := True\<rparr>]\<rparr>"
  have evaluated: "let s = ?s in
      sp_selectedCard s = Some ?sel \<and> \<not> sp_dealingCards s \<and> \<not> sp_gameWon s \<and>
      sp_enabled s (SpCardClick 0 16) \<and> isValidSequence (drop 16 (sp_tableau s ! 0)) \<and>
      canMoveToTableau (sp_cards ?sel) (sp_tableau s ! 0) = Inr True \<and>
      suit_complete_run (sp_tableau s ! 0 @ sp_cards ?sel) \<and>
      length (sp_tableau s ! 0) = 17"
    by code_simp
  note facts = evaluated[unfolded Let_def]
  from facts have h: "sp_selectedCard ?s = Some ?sel" "\<not> sp_dealingCards ?s" "\<not> sp_gameWon ?s"
    "sp_enabled ?s (SpCardClick 0 16)"
    "SpCardClick 0 16 = SpCardClick 0 16 \<and> isValidSequence (drop 16 (sp_tableau ?s ! 0)) \<and>
       sp_pileIndex ?sel \<noteq> 0 \<and> canMoveToTableau (sp_cards ?sel) (sp_tableau ?s ! 0) = Inr True
     \<or> SpCardClick 0 16 = SpEmptyPileClick 0"
    and c: "suit_complete_run (sp_tableau ?s ! 0 @ sp_cards ?sel)" and l: "length (sp_tableau ?s ! 0) = 17"
    by simp_all
  have ne: "take 5 (sp_tableau ?s ! 0) \<noteq> []" using l by auto
  from spider_landing_checks_complete_suit[OF demoBeforeCompletion_reachable h] c l
  have concl: "sp_moves (sp_step ?s (SpCardClick 0 16)) = sp_moves ?s + 1 \<and>
      sp_tableau (sp_step ?s (SpCardClick 0 16)) ! 0 = flipLastCard (take 5 (sp_tableau ?s ! 0)) \<and>
      sp_completedSuits (sp_step ?s (SpCardClick 0 16)) = sp_completedSuits ?s + 1"
    by simp
  then have "faceUp (last (sp_tableau (sp_step ?s (SpCardClick 0 16)) ! 0))"
    using faceUp_last_flipLastCard[OF ne] by simp
  with concl facts demoBeforeCompletion_reachable show ?thesis by simp
qed


definition demoDealt :: spider where
  "demoDealt = sp_step (sp_initGame demoDeck) SpDealingDone"


section \<open>Klondike: the game engine of Solitaire.jsx\<close>

text \<open>
  Reading an array element that is not there gives \<^verbatim>\<open>undefined\<close> (here \<open>None\<close>); reading a
  property of \<^verbatim>\<open>undefined\<close> throws. \<open>at\<close> is \<^verbatim>\<open>xs[i]\<close> and \<open>topOf\<close> is \<^verbatim>\<open>xs[xs.length - 1]\<close>.
  The two slices with a negative bound, \<^verbatim>\<open>xs.slice(-n)\<close> and \<^verbatim>\<open>xs.slice(0, -n)\<close>, treat \<open>-0\<close> as \<open>0\<close>.
\<close>

definition at :: "'a list \<Rightarrow> nat \<Rightarrow> 'a option" where
  "at xs i = (if i < length xs then Some (xs ! i) else None)"

definition pileAt :: "'a list \<Rightarrow> nat option \<Rightarrow> 'a option" where
  "pileAt xs i = (case i of None \<Rightarrow> None | Some k \<Rightarrow> at xs k)"

definition topOf :: "'a list \<Rightarrow> 'a option" where
  "topOf xs = (if xs = [] then None else Some (last xs))"

definition sliceLast :: "nat \<Rightarrow> 'a list \<Rightarrow> 'a list" where
  "sliceLast n xs = (if n = 0 then xs else drop (length xs - n) xs)"

definition sliceButLast :: "nat \<Rightarrow> 'a list \<Rightarrow> 'a list" where
  "sliceButLast n xs = (if n = 0 then [] else take (length xs - n) xs)"

text \<open>
  The validators applied to a card that may be \<^verbatim>\<open>undefined\<close>. \<^verbatim>\<open>canPlaceOnTableau\<close> reads the
  card only after the emptiness and face-up tests of the target; \<^verbatim>\<open>canPlaceOnFoundation\<close>
  reads it first in both branches.
\<close>

definition tryPlaceOnTableau :: "card option \<Rightarrow> card list \<Rightarrow> error + bool" where
  "tryPlaceOnTableau c targetPile =
     (case c of
        Some c' \<Rightarrow> Inr (canPlaceOnTableau c' targetPile)
      | None \<Rightarrow> if length targetPile \<noteq> 0 \<and> \<not> faceUp (last targetPile) then Inr False
                else Inl TypeError)"

definition tryPlaceOnFoundation :: "card option \<Rightarrow> card list \<Rightarrow> error + bool" where
  "tryPlaceOnFoundation c foundationPile =
     (case c of
        Some c' \<Rightarrow> Inr (canPlaceOnFoundation c' foundationPile)
      | None \<Rightarrow> Inl TypeError)"

text \<open>
  The state. \<^verbatim>\<open>cloneGameState\<close> takes and returns the four pile fields, so they form a
  record of their own which the component state extends. A selection is the object
  \<^verbatim>\<open>{ source, pileIndex, cardIndex }\<close>; \<^verbatim>\<open>pileIndex\<close> is \<^verbatim>\<open>null\<close> for the waste.
\<close>

datatype source = Waste | Tableau | Foundation

record selection =
  source :: source
  pileIndex :: "nat option"
  cardIndex :: nat

record piles =
  tableau :: "card list list"
  foundations :: "card list list"
  stock :: "card list"
  waste :: "card list"

record klondike = piles +
  selectedCard :: "selection option"
  moves :: int
  gameWon :: bool
  history :: "piles list"
  drawCount :: nat
  autoFoundation :: bool

definition cloneGameState :: "'a piles_scheme \<Rightarrow> piles" where
  "cloneGameState state =
     \<lparr>tableau = map (\<lambda>pile. map (\<lambda>card. card) pile) (tableau state),
      foundations = map (\<lambda>pile. map (\<lambda>card. card) pile) (foundations state),
      stock = map (\<lambda>card. card) (stock state),
      waste = map (\<lambda>card. card) (waste state)\<rparr>"

definition saveToHistory :: "klondike \<Rightarrow> klondike" where
  "saveToHistory s = s\<lparr>history := history s @ [cloneGameState s]\<rparr>"

definition handleUndo :: "klondike \<Rightarrow> klondike result" where
  "handleUndo s =
     (if length (history s) = 0 then Inr s
      else let previousState = last (history s) in
        Inr (s\<lparr>tableau := tableau previousState,
                foundations := foundations previousState,
                stock := stock previousState,
                waste := waste previousState,
                history := butlast (history s),
                moves := max 0 (moves s - 1),
                selectedCard := None\<rparr>))"

definition drawFromStock :: "klondike \<Rightarrow> klondike result" where
  "drawFromStock s =
     (let s1 = saveToHistory s in
      if length (stock s) = 0 then
        (if length (waste s) > 0 then
           Inr (s1\<lparr>stock := rev (map (\<lambda>card. card\<lparr>faceUp := False\<rparr>) (waste s)),
                   waste := [],
                   moves := moves s + 1\<rparr>)
         else Inr s1)
      else
        let cardsToDraw = min (drawCount s) (length (stock s));
            drawnCards = map (\<lambda>card. card\<lparr>faceUp := True\<rparr>) (sliceLast cardsToDraw (stock s))
        in Inr (s1\<lparr>stock := sliceButLast cardsToDraw (stock s),
                   waste := waste s @ drawnCards,
                   selectedCard := None,
                   moves := moves s + 1\<rparr>))"

text \<open>
  The branches of \<^verbatim>\<open>handleCardClick\<close> taken when a card is already selected. Each returns
  the new state and whether a move was made; the caller then counts the move and clears the
  selection.
\<close>

definition moveToTableau :: "selection \<Rightarrow> nat option \<Rightarrow> klondike \<Rightarrow> (error \<times> klondike) + (klondike \<times> bool)" where
  "moveToTableau sel pIndex s =
     (case source sel of
        Waste \<Rightarrow>
          (case pileAt (tableau s) pIndex of
             None \<Rightarrow> Inl (TypeError, s)
           | Some targetPile \<Rightarrow>
              (case tryPlaceOnTableau (topOf (waste s)) targetPile of
                 Inl e \<Rightarrow> Inl (e, s)
               | Inr False \<Rightarrow> Inr (s, False)
               | Inr True \<Rightarrow>
                   Inr ((saveToHistory s)
                          \<lparr>tableau := (tableau s)[the pIndex := targetPile @ [last (waste s)]],
                           waste := butlast (waste s)\<rparr>, True)))
      | Tableau \<Rightarrow>
          (case pileAt (tableau s) (pileIndex sel) of
             None \<Rightarrow> Inl (TypeError, s)
           | Some sourcePile \<Rightarrow>
              (let cardsToMove = drop (cardIndex sel) sourcePile in
               case pileAt (tableau s) pIndex of
                 None \<Rightarrow> Inl (TypeError, s)
               | Some targetPile \<Rightarrow>
                  (case tryPlaceOnTableau (at cardsToMove 0) targetPile of
                     Inl e \<Rightarrow> Inl (e, s)
                   | Inr False \<Rightarrow> Inr (s, False)
                   | Inr True \<Rightarrow>
                       let src = the (pileIndex sel);
                           t1 = (tableau s)[src := take (cardIndex sel) sourcePile];
                           t2 = t1[the pIndex := targetPile @ cardsToMove];
                           t3 = t2[src := flipLastCard (t2 ! src)]
                       in Inr ((saveToHistory s)\<lparr>tableau := t3\<rparr>, True))))
      | Foundation \<Rightarrow>
          (case pileAt (foundations s) (pileIndex sel) of
             None \<Rightarrow> Inl (TypeError, s)
           | Some sourceFoundation \<Rightarrow>
              (case pileAt (tableau s) pIndex of
                 None \<Rightarrow> Inl (TypeError, s)
               | Some targetPile \<Rightarrow>
                  (case tryPlaceOnTableau (topOf sourceFoundation) targetPile of
                     Inl e \<Rightarrow> Inl (e, s)
                   | Inr False \<Rightarrow> Inr (s, False)
                   | Inr True \<Rightarrow>
                       Inr ((saveToHistory s)
                              \<lparr>foundations := (foundations s)
                                   [the (pileIndex sel) := butlast sourceFoundation],
                               tableau := (tableau s)
                                   [the pIndex := targetPile @ [last sourceFoundation]]\<rparr>,
                            True)))))"

definition moveToFoundation :: "selection \<Rightarrow> nat option \<Rightarrow> klondike \<Rightarrow> (error \<times> klondike) + (klondike \<times> bool)" where
  "moveToFoundation sel pIndex s =
     (case source sel of
        Waste \<Rightarrow>
          (case pileAt (foundations s) pIndex of
             None \<Rightarrow> Inl (TypeError, s)
           | Some targetFoundation \<Rightarrow>
              (case tryPlaceOnFoundation (topOf (waste s)) targetFoundation of
                 Inl e \<Rightarrow> Inl (e, s)
               | Inr False \<Rightarrow> Inr (s, False)
               | Inr True \<Rightarrow>
                   Inr ((saveToHistory s)
                          \<lparr>foundations := (foundations s)
                               [the pIndex := targetFoundation @ [last (waste s)]],
                           waste := butlast (waste s)\<rparr>, True)))
      | Tableau \<Rightarrow>
          (case pileAt (tableau s) (pileIndex sel) of
             None \<Rightarrow> Inl (TypeError, s)
           | Some sourcePile \<Rightarrow>
              if sourcePile \<noteq> [] \<and> cardIndex sel = length sourcePile - 1 then
                (case pileAt (foundations s) pIndex of
                   None \<Rightarrow> Inl (TypeError, s)
                 | Some targetFoundation \<Rightarrow>
                    (case tryPlaceOnFoundation (at sourcePile (cardIndex sel)) targetFoundation of
                       Inl e \<Rightarrow> Inl (e, s)
                     | Inr False \<Rightarrow> Inr (s, False)
                     | Inr True \<Rightarrow>
                         let src = the (pileIndex sel) in
                         Inr ((saveToHistory s)
                                \<lparr>foundations := (foundations s)
                                     [the pIndex := targetFoundation @ [sourcePile ! cardIndex sel]],
                                 tableau := (tableau s)
                                     [src := flipLastCard (butlast sourcePile)]\<rparr>, True)))
              else Inr (s, False))
      | Foundation \<Rightarrow> Inr (s, False))"

definition handleCardClick :: "source \<Rightarrow> nat option \<Rightarrow> nat \<Rightarrow> klondike \<Rightarrow> klondike result" where
  "handleCardClick src pIndex cIndex s =
     (case selectedCard s of
        Some sel \<Rightarrow>
          if source sel = src \<and> pileIndex sel = pIndex \<and> cardIndex sel = cIndex
          then Inr (s\<lparr>selectedCard := None\<rparr>)
          else
            (case (case src of
                     Tableau \<Rightarrow> moveToTableau sel pIndex s
                   | Foundation \<Rightarrow> moveToFoundation sel pIndex s
                   | Waste \<Rightarrow> Inr (s, False)) of
               Inl e \<Rightarrow> Inl e
             | Inr (s', moved) \<Rightarrow>
                 Inr ((if moved then s'\<lparr>moves := moves s + 1\<rparr> else s')\<lparr>selectedCard := None\<rparr>))
      | None \<Rightarrow>
         (case src of
            Waste \<Rightarrow>
              if length (waste s) > 0
              then Inr (s\<lparr>selectedCard :=
                            Some \<lparr>source = Waste, pileIndex = None,
                                  cardIndex = length (waste s) - 1\<rparr>\<rparr>)
              else Inr s
          | Tableau \<Rightarrow>
              (case pileAt (tableau s) pIndex of
                 None \<Rightarrow> Inl (TypeError, s)
               | Some pile \<Rightarrow>
                  (case at pile cIndex of
                     None \<Rightarrow> Inr s
                   | Some c \<Rightarrow>
                       if faceUp c
                       then Inr (s\<lparr>selectedCard :=
                                     Some \<lparr>source = Tableau, pileIndex = pIndex,
                                           cardIndex = cIndex\<rparr>\<rparr>)
                       else Inr s))
          | Foundation \<Rightarrow>
              (case pileAt (foundations s) pIndex of
                 None \<Rightarrow> Inl (TypeError, s)
               | Some pile \<Rightarrow>
                   if length pile > 0
                   then Inr (s\<lparr>selectedCard :=
                                 Some \<lparr>source = Foundation, pileIndex = pIndex,
                                       cardIndex = length pile - 1\<rparr>\<rparr>)
                   else Inr s)))"

text \<open>
  \<^verbatim>\<open>handleEmptyClick(type, index)\<close> is bound to the slot of an empty tableau pile and to an
  empty foundation, so \<open>index\<close> is an index of that array.
\<close>

definition handleEmptyClick :: "source \<Rightarrow> nat \<Rightarrow> klondike \<Rightarrow> klondike result" where
  "handleEmptyClick type index s =
     (case selectedCard s of
        None \<Rightarrow> Inr s
      | Some sel \<Rightarrow>
         (case type of
            Tableau \<Rightarrow>
              (case source sel of
                 Waste \<Rightarrow>
                   (case topOf (waste s) of
                      None \<Rightarrow> Inl (TypeError, s)
                    | Some c \<Rightarrow>
                        if rank c = ''K''
                        then Inr ((saveToHistory s)
                                    \<lparr>tableau := (tableau s)[index := [c]],
                                     waste := butlast (waste s),
                                     moves := moves s + 1,
                                     selectedCard := None\<rparr>)
                        else Inr (s\<lparr>selectedCard := None\<rparr>))
               | Tableau \<Rightarrow>
                   (case pileAt (tableau s) (pileIndex sel) of
                      None \<Rightarrow> Inl (TypeError, s)
                    | Some sourcePile \<Rightarrow>
                       (case at sourcePile (cardIndex sel) of
                          None \<Rightarrow> Inl (TypeError, s)
                        | Some c \<Rightarrow>
                            if rank c = ''K''
                            then
                              let src = the (pileIndex sel);
                                  cardsToMove = drop (cardIndex sel) sourcePile;
                                  t1 = (tableau s)[src := take (cardIndex sel) sourcePile];
                                  t2 = t1[index := cardsToMove];
                                  t3 = t2[src := flipLastCard (t2 ! src)]
                              in Inr ((saveToHistory s)
                                        \<lparr>tableau := t3,
                                         moves := moves s + 1,
                                         selectedCard := None\<rparr>)
                            else Inr (s\<lparr>selectedCard := None\<rparr>)))
               | Foundation \<Rightarrow> Inr (s\<lparr>selectedCard := None\<rparr>))
          | Foundation \<Rightarrow>
              (case source sel of
                 Waste \<Rightarrow>
                   (case topOf (waste s) of
                      None \<Rightarrow> Inr (s\<lparr>selectedCard := None\<rparr>)
                    | Some c \<Rightarrow>
                        if rank c = ''A''
                        then Inr ((saveToHistory s)
                                    \<lparr>foundations := (foundations s)[index := [c]],
                                     waste := butlast (waste s),
                                     moves := moves s + 1,
                                     selectedCard := None\<rparr>)
                        else Inr (s\<lparr>selectedCard := None\<rparr>))
               | Tableau \<Rightarrow>
                   (case pileAt (tableau s) (pileIndex sel) of
                      None \<Rightarrow> Inl (TypeError, s)
                    | Some sourcePile \<Rightarrow>
                       if sourcePile \<noteq> [] \<and> cardIndex sel = length sourcePile - 1 \<and>
                          rank (last sourcePile) = ''A''
                       then
                         let src = the (pileIndex sel) in
                         Inr ((saveToHistory s)
                                \<lparr>foundations := (foundations s)[index := [last sourcePile]],
                                 tableau := (tableau s)[src := flipLastCard (butlast sourcePile)],
                                 moves := moves s + 1,
                                 selectedCard := None\<rparr>)
                       else Inr (s\<lparr>selectedCard := None\<rparr>))
               | Foundation \<Rightarrow> Inr (s\<lparr>selectedCard := None\<rparr>))
          | Waste \<Rightarrow> Inr (s\<lparr>selectedCard := None\<rparr>)))"

text \<open>
  The two searches of \<^verbatim>\<open>handleDoubleClick\<close> (and of \<^verbatim>\<open>autoMoveToFoundation\<close>): the first
  foundation, in index order, that accepts the card, and the first tableau pile other than
  the card's own.
\<close>

fun firstFoundation :: "card option \<Rightarrow> card list list \<Rightarrow> nat list \<Rightarrow> error + nat option" where
  "firstFoundation c fs [] = Inr None"
| "firstFoundation c fs (i # is) =
     (case at fs i of
        None \<Rightarrow> Inl TypeError
      | Some f \<Rightarrow>
         (case tryPlaceOnFoundation c f of
            Inl e \<Rightarrow> Inl e
          | Inr True \<Rightarrow> Inr (Some i)
          | Inr False \<Rightarrow> firstFoundation c fs is))"

fun firstTableau :: "card option \<Rightarrow> card list list \<Rightarrow> nat option \<Rightarrow> nat list \<Rightarrow> error + nat option" where
  "firstTableau c t skip [] = Inr None"
| "firstTableau c t skip (i # is) =
     (if skip = Some i then firstTableau c t skip is
      else case at t i of
        None \<Rightarrow> Inl TypeError
      | Some pile \<Rightarrow>
         (case tryPlaceOnTableau c pile of
            Inl e \<Rightarrow> Inl e
          | Inr True \<Rightarrow> Inr (Some i)
          | Inr False \<Rightarrow> firstTableau c t skip is))"

definition doubleClickToTableau :: "source \<Rightarrow> nat option \<Rightarrow> nat \<Rightarrow> card option \<Rightarrow> klondike \<Rightarrow> klondike result" where
  "doubleClickToTableau src pIndex cIndex c s =
     (case firstTableau c (tableau s) (if src = Tableau then pIndex else None) [0..<7] of
        Inl e \<Rightarrow> Inl (e, s)
      | Inr None \<Rightarrow> Inr s
      | Inr (Some i) \<Rightarrow>
          if src = Waste
          then Inr ((saveToHistory s)
                      \<lparr>tableau := (tableau s)[i := tableau s ! i @ [last (waste s)]],
                       waste := butlast (waste s),
                       moves := moves s + 1,
                       selectedCard := None\<rparr>)
          else
            let p = the pIndex;
                cardsToMove = drop cIndex (tableau s ! p);
                t1 = (tableau s)[p := take cIndex (tableau s ! p)];
                t2 = t1[i := tableau s ! i @ cardsToMove];
                t3 = t2[p := flipLastCard (t2 ! p)]
            in Inr ((saveToHistory s)
                      \<lparr>tableau := t3,
                       moves := moves s + 1,
                       selectedCard := None\<rparr>))"

definition handleDoubleClick :: "source \<Rightarrow> nat option \<Rightarrow> nat \<Rightarrow> klondike \<Rightarrow> klondike result" where
  "handleDoubleClick src pIndex cIndex s =
     (case src of
        Foundation \<Rightarrow> Inr s
      | Waste \<Rightarrow>
         (case firstFoundation (topOf (waste s)) (foundations s) [0..<4] of
            Inl e \<Rightarrow> Inl (e, s)
          | Inr (Some i) \<Rightarrow>
              Inr ((saveToHistory s)
                     \<lparr>foundations := (foundations s)[i := foundations s ! i @ [last (waste s)]],
                      waste := butlast (waste s),
                      moves := moves s + 1,
                      selectedCard := None\<rparr>)
          | Inr None \<Rightarrow> doubleClickToTableau src pIndex cIndex (topOf (waste s)) s)
      | Tableau \<Rightarrow>
         (case pileAt (tableau s) pIndex of
            None \<Rightarrow> Inl (TypeError, s)
          | Some pile \<Rightarrow>
             (case at pile cIndex of
                None \<Rightarrow> Inr s
              | Some c \<Rightarrow>
                 if \<not> faceUp c then Inr s
                 else if cIndex = length pile - 1 then
                   (case firstFoundation (Some c) (foundations s) [0..<4] of
                      Inl e \<Rightarrow> Inl (e, s)
                    | Inr (Some i) \<Rightarrow>
                        Inr ((saveToHistory s)
                               \<lparr>foundations := (foundations s)[i := foundations s ! i @ [c]],
                                tableau := (tableau s)[the pIndex := flipLastCard (butlast pile)],
                                moves := moves s + 1,
                                selectedCard := None\<rparr>)
                    | Inr None \<Rightarrow> doubleClickToTableau src pIndex cIndex (Some c) s)
                 else doubleClickToTableau src pIndex cIndex (Some c) s)))"

text \<open>
  \<^verbatim>\<open>autoMoveToFoundation\<close> and the effect that applies its answer after a short delay.
  \<^verbatim>\<open>Math.min\<close> of no argument is \<^verbatim>\<open>Infinity\<close>, written \<open>None\<close>.
\<close>

datatype automove = FromWaste nat card | FromTableau nat nat card

definition minFoundationValue :: "card list list \<Rightarrow> int option" where
  "minFoundationValue fs =
     (if fs = [] then None
      else Some (Min (set (map (\<lambda>f. if length f > 0 then val (last f) else 0) fs))))"

definition canAutoMove :: "int option \<Rightarrow> card \<Rightarrow> bool" where
  "canAutoMove m c = (case m of None \<Rightarrow> True | Some v \<Rightarrow> val c \<le> v + 2)"

fun autoFromTableau :: "int option \<Rightarrow> card list list \<Rightarrow> card list list \<Rightarrow> nat list \<Rightarrow> error + automove option" where
  "autoFromTableau m t fs [] = Inr None"
| "autoFromTableau m t fs (pileIdx # rest) =
     (case at t pileIdx of
        None \<Rightarrow> Inl TypeError
      | Some pile \<Rightarrow>
          if length pile = 0 then autoFromTableau m t fs rest
          else if \<not> faceUp (last pile) then autoFromTableau m t fs rest
          else if canAutoMove m (last pile) \<or> rank (last pile) = ''A'' then
            (case firstFoundation (Some (last pile)) fs [0..<4] of
               Inl e \<Rightarrow> Inl e
             | Inr (Some i) \<Rightarrow> Inr (Some (FromTableau pileIdx i (last pile)))
             | Inr None \<Rightarrow> autoFromTableau m t fs rest)
          else autoFromTableau m t fs rest)"

definition autoMoveToFoundation :: "klondike \<Rightarrow> error + automove option" where
  "autoMoveToFoundation s =
     (if \<not> autoFoundation s then Inr None
      else
        let m = minFoundationValue (foundations s) in
        case (if length (waste s) > 0 \<and>
                 (canAutoMove m (last (waste s)) \<or> rank (last (waste s)) = ''A'')
              then firstFoundation (Some (last (waste s))) (foundations s) [0..<4]
              else Inr None) of
          Inl e \<Rightarrow> Inl e
        | Inr (Some i) \<Rightarrow> Inr (Some (FromWaste i (last (waste s))))
        | Inr None \<Rightarrow> autoFromTableau m (tableau s) (foundations s) [0..<7])"

definition autoFoundationEffect :: "klondike \<Rightarrow> klondike result" where
  "autoFoundationEffect s =
     (if \<not> autoFoundation s \<or> gameWon s then Inr s
      else case autoMoveToFoundation s of
        Inl e \<Rightarrow> Inl (e, s)
      | Inr None \<Rightarrow> Inr s
      | Inr (Some (FromWaste i c)) \<Rightarrow>
          Inr ((saveToHistory s)
                 \<lparr>foundations := (foundations s)[i := foundations s ! i @ [c]],
                  waste := butlast (waste s),
                  moves := moves s + 1\<rparr>)
      | Inr (Some (FromTableau p i c)) \<Rightarrow>
          Inr ((saveToHistory s)
                 \<lparr>foundations := (foundations s)[i := foundations s ! i @ [c]],
                  tableau := (tableau s)[p := flipLastCard (butlast (tableau s ! p))],
                  moves := moves s + 1\<rparr>))"

text \<open>The win effect: all 52 cards on the foundations set \<^verbatim>\<open>gameWon\<close>.\<close>

definition winEffect :: "klondike \<Rightarrow> klondike" where
  "winEffect s =
     (if sum_list (map length (foundations s)) = 52 \<and> \<not> gameWon s
      then s\<lparr>gameWon := True\<rparr> else s)"

text \<open>
  \<^verbatim>\<open>initGame\<close> deals one card at a time in the order of \<^verbatim>\<open>dealOrder\<close> (round \<open>r\<close> serves the
  columns \<open>r\<close> to 6; the first card of a round is the last of its column and face-up), then
  turns the rest of the deck into the face-down stock. The animation timers between the
  cards are not modelled: a game starts at the finished deal. The two settings come from
  the stored preferences.
\<close>

definition dealOrder :: "(nat \<times> bool) list" where
  "dealOrder = concat (map (\<lambda>round. map (\<lambda>col. (col, col = round)) [round..<7]) [0..<7])"

fun dealNextCard :: "card list \<Rightarrow> (nat \<times> bool) list \<Rightarrow> nat \<Rightarrow> card list list \<Rightarrow> card list list" where
  "dealNextCard deck [] deckIndex newTableau = newTableau"
| "dealNextCard deck ((col, isLastInCol) # rest) deckIndex newTableau =
     dealNextCard deck rest (deckIndex + 1)
       (newTableau[col := newTableau ! col @ [(deck ! deckIndex)\<lparr>faceUp := isLastInCol\<rparr>]])"

definition initGame :: "card list \<Rightarrow> nat \<Rightarrow> bool \<Rightarrow> klondike" where
  "initGame deck dc af =
     \<lparr>tableau = dealNextCard deck dealOrder 0 (replicate 7 []),
      foundations = replicate 4 [],
      stock = map (\<lambda>c. c\<lparr>faceUp := False\<rparr>) (drop (length dealOrder) deck),
      waste = [],
      selectedCard = None,
      moves = 0,
      gameWon = False,
      history = [],
      drawCount = dc,
      autoFoundation = af\<rparr>"

text \<open>
  What the player, the auto-foundation timer and the settings panel can do. A card of the
  tableau is clickable face-up or face-down; only a face-up card takes a double click;
  the waste shows a handler on its top card; a foundation slot calls \<^verbatim>\<open>handleEmptyClick\<close>
  when empty and \<^verbatim>\<open>handleCardClick\<close> with the index of its top card otherwise.
\<close>

datatype action =
    Draw
  | CardClick source "nat option" nat
  | EmptyClick source nat
  | DoubleClick source "nat option" nat
  | Undo
  | AutoFoundationTick
  | SetDrawCount nat
  | SetAutoFoundation bool



fun handler :: "action \<Rightarrow> klondike \<Rightarrow> klondike result" where
  "handler Draw s = drawFromStock s"
| "handler (CardClick src pIndex cIndex) s = handleCardClick src pIndex cIndex s"
| "handler (EmptyClick type index) s = handleEmptyClick type index s"
| "handler (DoubleClick src pIndex cIndex) s = handleDoubleClick src pIndex cIndex s"
| "handler Undo s = handleUndo s"
| "handler AutoFoundationTick s = autoFoundationEffect s"
| "handler (SetDrawCount n) s = Inr (s\<lparr>drawCount := n\<rparr>)"
| "handler (SetAutoFoundation b) s = Inr (s\<lparr>autoFoundation := b\<rparr>)"

definition step :: "klondike \<Rightarrow> action \<Rightarrow> klondike" where
  "step s a = winEffect (commit (handler a s))"


section \<open>Klondike: what every reachable state satisfies\<close>

text \<open>
  A run as the tableau builds it: each card has the other colour than the card below it and
  a value one less. A tableau pile is well-formed when its face-down cards lie below its
  face-up cards and the face-up cards form such a run.
\<close>

fun alternatingRun :: "card list \<Rightarrow> bool" where
  "alternatingRun (a # b # cs) = (color a \<noteq> color b \<and> val a = val b + 1 \<and> alternatingRun (b # cs))"
| "alternatingRun cs = True"

fun k_pile_ok :: "card list \<Rightarrow> bool" where
  "k_pile_ok [] = True"
| "k_pile_ok (c # cs) =
     (if faceUp c then list_all faceUp cs \<and> alternatingRun (c # cs) else k_pile_ok cs)"














abbreviation idsIn :: "card list \<Rightarrow> card_id multiset" where
  "idsIn xs \<equiv> image_mset ident (mset xs)"

definition k_total :: "card list list \<Rightarrow> card list list \<Rightarrow> card list \<Rightarrow> card list \<Rightarrow> card_id multiset" where
  "k_total t f st w = idsIn (concat t) + idsIn (concat f) + idsIn st + idsIn w"

definition k_ok :: "card list list \<Rightarrow> card list list \<Rightarrow> card list \<Rightarrow> card list \<Rightarrow> bool" where
  "k_ok t f st w \<longleftrightarrow>
     length t = 7 \<and> length f = 4 \<and>
     (\<forall>pile\<in>set t. k_pile_ok pile) \<and>
     (\<forall>pile\<in>set f. \<forall>c\<in>set pile. faceUp c) \<and> (\<forall>c\<in>set w. faceUp c) \<and>
     uniqueIds (k_total t f st w) \<and> size (k_total t f st w) = 52"

definition k_piles_ok :: "'a piles_scheme \<Rightarrow> bool" where
  "k_piles_ok P = k_ok (tableau P) (foundations P) (stock P) (waste P)"

















lemma at_Some [simp]: "at xs i = Some x \<longleftrightarrow> i < length xs \<and> x = xs ! i"
  by (auto simp: at_def)

lemma at_None [simp]: "at xs i = None \<longleftrightarrow> length xs \<le> i"
  by (auto simp: at_def)

lemma pileAt_Some [simp]: "pileAt xs i = Some p \<longleftrightarrow> (\<exists>k. i = Some k \<and> k < length xs \<and> p = xs ! k)"
  by (cases i) (auto simp: pileAt_def)

lemma topOf_Some [simp]: "topOf xs = Some x \<longleftrightarrow> xs \<noteq> [] \<and> x = last xs"
  by (auto simp: topOf_def)

lemma topOf_None [simp]: "topOf xs = None \<longleftrightarrow> xs = []"
  by (auto simp: topOf_def)

lemma tryPlaceOnTableau_True [simp]:
  "tryPlaceOnTableau c pile = Inr True \<longleftrightarrow> (\<exists>x. c = Some x \<and> canPlaceOnTableau x pile)"
  by (cases c) (auto simp: tryPlaceOnTableau_def)

lemma tryPlaceOnFoundation_True [simp]:
  "tryPlaceOnFoundation c pile = Inr True \<longleftrightarrow> (\<exists>x. c = Some x \<and> canPlaceOnFoundation x pile)"
  by (cases c) (auto simp: tryPlaceOnFoundation_def)

lemma k_piles_ok_clone [simp]: "k_piles_ok (cloneGameState s) = k_piles_ok s"
  by (simp add: k_piles_ok_def cloneGameState_def)

text \<open>The part of the invariant that does not speak of the selection.\<close>

definition k_saved_ok :: "klondike \<Rightarrow> bool" where
  "k_saved_ok s \<longleftrightarrow> k_piles_ok s \<and> (\<forall>h\<in>set (history s). k_piles_ok h)"



lemma k_saved_ok_moves [simp]: "k_saved_ok (s\<lparr>moves := m\<rparr>) = k_saved_ok s"
  by (simp add: k_saved_ok_def k_piles_ok_def)



























lemma dealNextCard_length [simp]:
  "length (dealNextCard deck order k T) = length T"
  by (induction deck order k T rule: dealNextCard.induct) auto







lemma tableau_winEffect [simp]: "tableau (winEffect s) = tableau s"
  by (simp add: winEffect_def)


lemma foundations_winEffect [simp]: "foundations (winEffect s) = foundations s"
  by (simp add: winEffect_def)




section \<open>Klondike: a game played out for the concrete checks\<close>


definition play :: "klondike \<Rightarrow> action list \<Rightarrow> klondike" where
  "play s as = foldl step s as"


text \<open>
  The deck of the example game. The deal turns up the Five of Hearts on pile 0, the Six of
  Clubs on pile 1, the Seven of Diamonds on pile 2, the Ace of Clubs on pile 3 and the Two of
  Diamonds on pile 4; the stock gives the spades from Ace to King, one card per draw.
\<close>

definition kdemoOrder :: "nat list" where
  "kdemoOrder = [17, 13, 14, 15, 16, 18, 19, 44] @ [20..<25] @
     [32, 25, 26, 28, 29, 39, 30, 31, 33, 27] @ [34..<39] @ [40..<44] @ [45..<52] @ rev [0..<13]"

definition kdemoDeck :: "card list" where
  "kdemoDeck = map (nth createDeck) kdemoOrder"

definition kdemoStart :: klondike where
  "kdemoStart = initGame kdemoDeck 1 False"

definition kdemoEmptyPile :: klondike where
  "kdemoEmptyPile = play kdemoStart [CardClick Tableau (Some 0) 0, CardClick Tableau (Some 1) 1]"






section \<open>Klondike: the runs that move between tableau piles\<close>






section \<open>Klondike: a foundation card goes back to the tableau\<close>







lemma winEffect_fields [simp]:
  "stock (winEffect s) = stock s" "waste (winEffect s) = waste s"
  "moves (winEffect s) = moves s" "selectedCard (winEffect s) = selectedCard s"
  "history (winEffect s) = history s"
  by (simp_all add: winEffect_def)





section \<open>Undo in both games\<close>

definition demoUndoable :: spider where
  "demoUndoable = sp_step demoDealt SpStockClick"

lemma demoUndoable_reachable: "sp_reachable demoUndoable"
proof -
  have "sp_playable (sp_initGame demoDeck) [SpDealingDone, SpStockClick]" by code_simp
  then have "sp_reachable (sp_play (sp_initGame demoDeck) [SpDealingDone, SpStockClick])"
    by (intro sp_reachable_play sp_init[OF demoDeck_shuffled])
  then show ?thesis by (simp add: sp_play_def demoUndoable_def demoDealt_def)
qed

text \<open>
  Claim C4 as stated fails in Spider: \<^verbatim>\<open>handleUndo\<close> of \<^verbatim>\<open>SpiderSolitaire.jsx\<close> ends with
  \<^verbatim>\<open>setMoves(m => m + 1)\<close>, so an undo is counted as one more move. After the first stock deal
  of the example game the counter is 1; the undo makes it 2, not 0.
\<close>

theorem spider_undo_counts_a_move:
  "sp_reachable demoUndoable \<and> sp_enabled demoUndoable SpUndo \<and>
   sp_history demoUndoable \<noteq> [] \<and> sp_moves demoUndoable = 1 \<and>
   sp_moves (sp_step demoUndoable SpUndo) = 2"
proof -
  have "let s = demoUndoable in
          sp_enabled s SpUndo \<and> sp_history s \<noteq> [] \<and> sp_moves s = 1 \<and>
          sp_moves (sp_step s SpUndo) = 2"
    by code_simp
  then show ?thesis using demoUndoable_reachable by (simp add: Let_def)
qed

text \<open>
  Claim C4, as amended. With an empty history, undo changes nothing in either game. With a
  non-empty history it makes the most recent snapshot the live piles (in Spider: tableau,
  stock and the number of completed suits), removes that snapshot from the history and clears
  the selection; Klondike then decrements the move counter by one, not below zero, and
  Spider increments it by one. Nothing else changes.
\<close>

theorem undo_restores_last_snapshot:
  "(history k = [] \<longrightarrow> handleUndo k = Inr k) \<and>
   (history k \<noteq> [] \<longrightarrow>
      (\<exists>k'. handleUndo k = Inr k' \<and>
         cloneGameState k' = last (history k) \<and>
         history k' = butlast (history k) \<and>
         moves k' = (if moves k \<ge> 1 then moves k - 1 else 0) \<and>
         selectedCard k' = None \<and>
         gameWon k' = gameWon k \<and> drawCount k' = drawCount k \<and>
         autoFoundation k' = autoFoundation k)) \<and>
   (sp_history s = [] \<longrightarrow> sp_handleUndo s = Inr s) \<and>
   (sp_history s \<noteq> [] \<longrightarrow>
      (\<exists>s'. sp_handleUndo s = Inr s' \<and>
         sp_cloneGameState s' = last (sp_history s) \<and>
         sp_history s' = butlast (sp_history s) \<and>
         sp_moves s' = sp_moves s + 1 \<and>
         sp_selectedCard s' = None \<and>
         sp_gameWon s' = sp_gameWon s \<and> sp_dealingCards s' = sp_dealingCards s))"
  by (auto simp: handleUndo_def sp_handleUndo_def Let_def cloneGameState_def sp_cloneGameState_def)

theorem undo_restores_last_snapshot_witness:
  "handleUndo kdemoStart = Inr kdemoStart \<and>
   history kdemoEmptyPile \<noteq> [] \<and>
   cloneGameState (commit (handleUndo kdemoEmptyPile)) = last (history kdemoEmptyPile) \<and>
   history (commit (handleUndo kdemoEmptyPile)) = butlast (history kdemoEmptyPile) \<and>
   moves (commit (handleUndo kdemoEmptyPile)) = 0 \<and>
   selectedCard (commit (handleUndo kdemoEmptyPile)) = None \<and>
   sp_handleUndo demoDealt = Inr demoDealt \<and>
   sp_history demoUndoable \<noteq> [] \<and>
   sp_cloneGameState (commit (sp_handleUndo demoUndoable)) = last (sp_history demoUndoable) \<and>
   sp_history (commit (sp_handleUndo demoUndoable)) = butlast (sp_history demoUndoable) \<and>
   sp_moves (commit (sp_handleUndo demoUndoable)) = 2 \<and>
   sp_selectedCard (commit (sp_handleUndo demoUndoable)) = None"
proof -
  have evaluated:
    "history kdemoStart = [] \<and> history kdemoEmptyPile \<noteq> [] \<and> moves kdemoEmptyPile = 1 \<and>
     sp_history demoDealt = [] \<and> sp_history demoUndoable \<noteq> [] \<and> sp_moves demoUndoable = 1"
    by code_simp
  show ?thesis
    using undo_restores_last_snapshot[of kdemoStart demoDealt]
      undo_restores_last_snapshot[of kdemoEmptyPile demoUndoable] evaluated
    by (auto simp: commit_def)
qed

section \<open>Undo after moves\<close>

text \<open>
  What one step does to the history: it either pushes the snapshot of the piles it started
  from, or it leaves the history and the piles as they are (a selection, a rejected move,
  a setting).
\<close>

definition saved :: "klondike \<Rightarrow> klondike \<Rightarrow> bool" where
  "saved s s' \<longleftrightarrow> history s' = history s @ [cloneGameState s]"

definition idle :: "klondike \<Rightarrow> klondike \<Rightarrow> bool" where
  "idle s s' \<longleftrightarrow> history s' = history s \<and> cloneGameState s' = cloneGameState s"

lemma idle_refl [simp]: "idle s s"
  by (simp add: idle_def)

lemma idle_deselect [simp]: "idle s (s\<lparr>selectedCard := x\<rparr>)"
  by (simp add: idle_def cloneGameState_def)











lemma winEffect_history [simp]:
  "saved s (winEffect s') = saved s s'" "idle s (winEffect s') = idle s s'"
  by (simp_all add: saved_def idle_def winEffect_def cloneGameState_def)


definition sp_saved :: "spider \<Rightarrow> spider \<Rightarrow> bool" where
  "sp_saved s s' \<longleftrightarrow> sp_history s' = sp_history s @ [sp_cloneGameState s]"

definition sp_idle :: "spider \<Rightarrow> spider \<Rightarrow> bool" where
  "sp_idle s s' \<longleftrightarrow> sp_history s' = sp_history s \<and> sp_cloneGameState s' = sp_cloneGameState s"




lemma sp_winEffect_history [simp]:
  "sp_saved s (sp_winEffect s') = sp_saved s s'" "sp_idle s (sp_winEffect s') = sp_idle s s'"
  by (simp_all add: sp_saved_def sp_idle_def sp_winEffect_def sp_cloneGameState_def)








section \<open>Snapshots in the JavaScript heap\<close>





















































section \<open>Conservation of the cards\<close>






end
